theory Spec2Isabelle
  imports Main "HOL-Library.Word" "HOL-Library.Sublist"
begin

section \<open>Answer normalisation and verification\<close>

text \<open>
  The API server of the scavenger hunt (\<^verbatim>\<open>api/src/server.js\<close>) checks a submitted answer
  against the credential stored with a stop, throttles submissions per run and stop with a
  Redis counter, and records solved stops and used hints in the \<^verbatim>\<open>progress\<close> table.

  JavaScript strings are modelled as \<^typ>\<open>string\<close>: a \<^typ>\<open>char\<close> stands for the code unit
  of the same number, so the model covers strings over U+0000 .. U+00FF.  A request field
  that is absent (\<^verbatim>\<open>undefined\<close>) or \<^verbatim>\<open>null\<close> is \<^term>\<open>None\<close>; fields that hold
  a JSON number, boolean, array or object are not modelled.  A rejected promise or thrown
  exception is the \<^term>\<open>Inl\<close> of a sum.  Requests are served one after the other.
\<close>

type_synonym byte = "8 word"

datatype exn = TypeError | ScryptError | RedisError | PgError

subsection \<open>\<^verbatim>\<open>normalizeAnswer\<close>\<close>

text \<open>
  The characters that the regular expression class \<^verbatim>\<open>\s\<close> matches and that
  \<^verbatim>\<open>String.prototype.trim\<close> strips: below U+0100 these are TAB, LF, VT, FF, CR, SPACE
  and NO-BREAK SPACE.
\<close>

definition isWhiteSpace :: "char \<Rightarrow> bool" where
  "isWhiteSpace c \<longleftrightarrow> (of_char c :: nat) \<in> {9, 10, 11, 12, 13, 32, 160}"

text \<open>
  \<^verbatim>\<open>toLowerCase\<close> on one code unit below U+0100: the letters A..Z and the Latin-1
  capitals U+00C0..U+00DE (without the multiplication sign U+00D7) move up by 32.
\<close>

definition toLowerCase_char :: "char \<Rightarrow> char" where
  "toLowerCase_char c =
     (let n = (of_char c :: nat)
      in if (65 \<le> n \<and> n \<le> 90) \<or> (192 \<le> n \<and> n \<le> 222 \<and> n \<noteq> 215)
         then char_of (n + 32) else c)"

definition toLowerCase :: "string \<Rightarrow> string" where
  "toLowerCase s = map toLowerCase_char s"

definition trimStart :: "string \<Rightarrow> string" where
  "trimStart s = dropWhile isWhiteSpace s"

definition trimEnd :: "string \<Rightarrow> string" where
  "trimEnd s = rev (dropWhile isWhiteSpace (rev s))"

definition trim :: "string \<Rightarrow> string" where
  "trim s = trimEnd (trimStart s)"

text \<open>
  \<^verbatim>\<open>.replace(/\s+/g, ' ')\<close>: scanning from the left, every maximal run of whitespace
  is replaced by one space.
\<close>

function replace_ws :: "string \<Rightarrow> string" where
  "replace_ws [] = []"
| "replace_ws (c # cs) =
     (if isWhiteSpace c then CHR '' '' # replace_ws (dropWhile isWhiteSpace cs)
      else c # replace_ws cs)"
  by pat_completeness auto
termination
  by (relation "measure length") (auto simp: length_dropWhile_le le_imp_less_Suc)

text \<open>
  \<^verbatim>\<open>String(s || '').trim().toLowerCase().replace(/\s+/g, ' ')\<close>; an absent, null or
  empty \<^verbatim>\<open>s\<close> is falsy and becomes the empty string.
\<close>

definition normalizeAnswer :: "string option \<Rightarrow> string" where
  "normalizeAnswer s =
     replace_ws (toLowerCase (trim (case s of None \<Rightarrow> [] | Some x \<Rightarrow> x)))"

subsection \<open>\<^verbatim>\<open>verifyAnswer\<close>\<close>

text \<open>\<^verbatim>\<open>stored.split(':')\<close>: the fields between the separators, empty fields included.\<close>

fun split :: "char \<Rightarrow> string \<Rightarrow> string list" where
  "split sep [] = [[]]"
| "split sep (c # cs) =
     (if c = sep then [] # split sep cs
      else (case split sep cs of [] \<Rightarrow> [[c]] | w # ws \<Rightarrow> (c # w) # ws))"

text \<open>
  \<^verbatim>\<open>Buffer.from(hex, 'hex')\<close> decodes two characters to a byte and stops, keeping what
  it has, at the first pair that is incomplete or holds a character that is no
  hexadecimal digit.
\<close>

definition unhex :: "char \<Rightarrow> nat option" where
  "unhex c =
     (let n = (of_char c :: nat)
      in if 48 \<le> n \<and> n \<le> 57 then Some (n - 48)
         else if 97 \<le> n \<and> n \<le> 102 then Some (n - 87)
         else if 65 \<le> n \<and> n \<le> 70 then Some (n - 55)
         else None)"

fun hex_decode :: "string \<Rightarrow> byte list" where
  "hex_decode (a # b # rest) =
     (case (unhex a, unhex b) of
        (Some x, Some y) \<Rightarrow> word_of_nat (16 * x + y) # hex_decode rest
      | _ \<Rightarrow> [])"
| "hex_decode _ = []"

text \<open>
  \<^verbatim>\<open>verifyAnswer(stored, input)\<close>.  The key derivation \<^verbatim>\<open>crypto.scrypt(password, salt,
  keylen, callback)\<close> is a parameter: \<^term>\<open>None\<close> when the callback receives an error,
  the derived key otherwise.  The destructuring \<^verbatim>\<open>[, salt, hex] = stored.split(':')\<close>
  leaves \<^verbatim>\<open>hex\<close> undefined when the credential has one colon only, and
  \<^verbatim>\<open>Buffer.from(undefined, 'hex')\<close> throws a TypeError, after the key was derived.
  \<^verbatim>\<open>Buffer.equals\<close> is equality of the two byte sequences.
\<close>

definition verifyAnswer ::
  "(string \<Rightarrow> string \<Rightarrow> nat \<Rightarrow> byte list option) \<Rightarrow>
   string option \<Rightarrow> string option \<Rightarrow> exn + bool" where
  "verifyAnswer scrypt stored input =
     (case stored of
        None \<Rightarrow> Inr False
      | Some st \<Rightarrow>
          if st = [] then Inr False
          else if prefix ''plain:'' st then Inr (drop 6 st = normalizeAnswer input)
          else if prefix ''scrypt:'' st then
            (case split CHR '':'' st of
               _ # salt # rest \<Rightarrow>
                 (case scrypt (normalizeAnswer input) salt 32 of
                    None \<Rightarrow> Inl ScryptError
                  | Some key \<Rightarrow>
                      (case rest of
                         [] \<Rightarrow> Inl TypeError
                       | hex # _ \<Rightarrow> Inr (hex_decode hex = key)))
             | _ \<Rightarrow> Inl TypeError)
          else Inr (st = normalizeAnswer input))"

subsection \<open>The specification's reading of normalisation\<close>

text \<open>
  Independently of the code: cut the input at whitespace into its maximal whitespace-free
  words, lowercase each word, and join the words with single spaces.  Nothing is left of
  leading, trailing or repeated whitespace.
\<close>

function tokens :: "string \<Rightarrow> string list" where
  "tokens s =
     (case dropWhile isWhiteSpace s of
        [] \<Rightarrow> []
      | c # cs \<Rightarrow> (c # takeWhile (\<lambda>x. \<not> isWhiteSpace x) cs)
                  # tokens (dropWhile (\<lambda>x. \<not> isWhiteSpace x) cs))"
  by pat_completeness auto
termination
proof (relation "measure length", goal_cases)
  case 1 show ?case by simp
next
  case (2 s c cs)
  have "length (dropWhile (\<lambda>x. \<not> isWhiteSpace x) cs) \<le> length cs"
    by (rule length_dropWhile_le)
  moreover have "length (c # cs) \<le> length s"
    using 2 length_dropWhile_le [of isWhiteSpace s] by simp
  ultimately show ?case by simp
qed

fun join_space :: "string list \<Rightarrow> string" where
  "join_space [] = []"
| "join_space [w] = w"
| "join_space (w # v # ws) = w @ CHR '' '' # join_space (v # ws)"

definition spec_normalize :: "string \<Rightarrow> string" where
  "spec_normalize s = join_space (map toLowerCase (tokens s))"

section \<open>Persistent state: the tables the answer and hint routes use\<close>

text \<open>
  The schema (\<^verbatim>\<open>migrate.sql\<close>) keys every table by a UUID.  A query parameter arrives as
  text and PostgreSQL converts it to the column's type; text that is no UUID makes the
  statement fail.  That conversion is the parameter \<open>uuid_in\<close> of the statements below.
  Timestamps are natural numbers.

  Of \<^verbatim>\<open>stops\<close> the answer route reads \<^verbatim>\<open>answer_hash\<close> (\<^verbatim>\<open>TEXT NOT NULL\<close>) by primary
  key, of \<^verbatim>\<open>runs\<close> the upserts read \<^verbatim>\<open>team_id\<close> (nullable) by primary key: each is a
  map from the key to that column.  A \<^verbatim>\<open>progress\<close> row carries the columns the upserts
  write; its surrogate key \<^verbatim>\<open>id\<close> (a random UUID) is never read and is left out.
\<close>

type_synonym uuid = "128 word"

type_synonym timestamp = nat

record progress_row =
  team_id :: "uuid option"
  stop_id :: "uuid option"
  solved_at :: "timestamp option"
  used_hint :: bool

record database =
  stops :: "uuid \<rightharpoonup> string"
  runs :: "uuid \<rightharpoonup> uuid option"
  progress :: "progress_row list"

text \<open>
  \<^verbatim>\<open>UNIQUE(team_id, stop_id)\<close>: a new row conflicts with an old one when both columns are
  equal and not null (PostgreSQL treats nulls as distinct).
\<close>

definition conflicts :: "progress_row \<Rightarrow> progress_row \<Rightarrow> bool" where
  "conflicts new old \<longleftrightarrow>
     team_id new \<noteq> None \<and> stop_id new \<noteq> None \<and>
     team_id old = team_id new \<and> stop_id old = stop_id new"

text \<open>
  \<^verbatim>\<open>INSERT ... ON CONFLICT (team_id, stop_id) DO UPDATE SET ...\<close> for one proposed row:
  the conflicting row is updated from itself and the proposed (\<^verbatim>\<open>excluded\<close>) row,
  and without a conflict the proposed row is added.
\<close>

definition insert_on_conflict ::
  "(progress_row \<Rightarrow> progress_row \<Rightarrow> progress_row) \<Rightarrow>
   progress_row \<Rightarrow> progress_row list \<Rightarrow> progress_row list" where
  "insert_on_conflict do_update new tbl =
     (if list_ex (conflicts new) tbl
      then map (\<lambda>old. if conflicts new old then do_update old new else old) tbl
      else tbl @ [new])"

text \<open>
  \<^verbatim>\<open>INSERT INTO progress(team_id, stop_id, solved_at)
   SELECT team_id, $1, now() FROM runs WHERE id=$2
   ON CONFLICT (team_id, stop_id) DO UPDATE SET solved_at=excluded.solved_at\<close>.
  The \<^verbatim>\<open>SELECT\<close> yields one row for an existing run and none otherwise;
  \<^verbatim>\<open>used_hint\<close> takes its default \<^verbatim>\<open>false\<close> in a new row.  The foreign keys of
  \<^verbatim>\<open>progress\<close> are not checked here: the routes run the statement after they have found
  the stop, and the team comes from a row of \<^verbatim>\<open>runs\<close>.
\<close>

definition upsert_solved :: "database \<Rightarrow> uuid \<Rightarrow> uuid \<Rightarrow> timestamp \<Rightarrow> database" where
  "upsert_solved d stop run now =
     (case runs d run of
        None \<Rightarrow> d
      | Some team \<Rightarrow>
          d\<lparr>progress :=
               insert_on_conflict (\<lambda>old excluded. old\<lparr>solved_at := solved_at excluded\<rparr>)
                 \<lparr>team_id = team, stop_id = Some stop, solved_at = Some now, used_hint = False\<rparr>
                 (progress d)\<rparr>)"

text \<open>
  \<^verbatim>\<open>INSERT INTO progress(team_id, stop_id, used_hint)
   SELECT team_id, $1, true FROM runs WHERE id=$2
   ON CONFLICT (team_id, stop_id) DO UPDATE SET used_hint=true\<close>;
  \<^verbatim>\<open>solved_at\<close> is null in a new row.
\<close>

definition upsert_hint :: "database \<Rightarrow> uuid \<Rightarrow> uuid \<Rightarrow> database" where
  "upsert_hint d stop run =
     (case runs d run of
        None \<Rightarrow> d
      | Some team \<Rightarrow>
          d\<lparr>progress :=
               insert_on_conflict (\<lambda>old excluded. old\<lparr>used_hint := True\<rparr>)
                 \<lparr>team_id = team, stop_id = Some stop, solved_at = None, used_hint = True\<rparr>
                 (progress d)\<rparr>)"

text \<open>The statements as the routes send them, with text parameters.\<close>

definition query_answer_hash ::
  "(string \<Rightarrow> uuid option) \<Rightarrow> database \<Rightarrow> string \<Rightarrow> exn + string option" where
  "query_answer_hash uuid_in d stopId =
     (case uuid_in stopId of None \<Rightarrow> Inl PgError | Some stop \<Rightarrow> Inr (stops d stop))"

definition query_upsert_solved ::
  "(string \<Rightarrow> uuid option) \<Rightarrow> database \<Rightarrow> string \<Rightarrow> string \<Rightarrow> timestamp \<Rightarrow> exn + database" where
  "query_upsert_solved uuid_in d stopId runId now =
     (case (uuid_in stopId, uuid_in runId) of
        (Some stop, Some run) \<Rightarrow> Inr (upsert_solved d stop run now)
      | _ \<Rightarrow> Inl PgError)"

text \<open>The rows of one (team, stop) pair, and the uniqueness the schema declares.\<close>

definition rows_for :: "uuid \<Rightarrow> uuid \<Rightarrow> progress_row list \<Rightarrow> progress_row list" where
  "rows_for t s tbl = filter (\<lambda>r. team_id r = Some t \<and> stop_id r = Some s) tbl"

definition progress_unique :: "progress_row list \<Rightarrow> bool" where
  "progress_unique tbl \<longleftrightarrow>
     list_all (\<lambda>r. case (team_id r, stop_id r) of
                     (Some t, Some s) \<Rightarrow> length (rows_for t s tbl) \<le> 1
                   | _ \<Rightarrow> True) tbl"

section \<open>The attempt counter in Redis\<close>

text \<open>
  A key holds an integer and, once \<^verbatim>\<open>EXPIRE\<close> was called, the time at which it lapses;
  a lapsed key counts as absent.  Times are seconds.  A client that cannot reach the
  server (\<^term>\<open>online\<close> is false) rejects every command.  Redis holds 64-bit counters; the
  model has integers, so it does not reach the overflow error of \<^verbatim>\<open>INCR\<close>.
\<close>

record redis_entry =
  val :: int
  expires_at :: "nat option"

record redis_client =
  online :: bool
  keyspace :: "string \<rightharpoonup> redis_entry"

definition redis_get :: "nat \<Rightarrow> redis_client \<Rightarrow> string \<Rightarrow> redis_entry option" where
  "redis_get now r k =
     (case keyspace r k of
        None \<Rightarrow> None
      | Some e \<Rightarrow>
          (case expires_at e of
             None \<Rightarrow> Some e
           | Some t \<Rightarrow> if now < t then Some e else None))"

text \<open>\<^verbatim>\<open>INCR key\<close>: an absent key starts from 0 with no expiry; the new value is returned.\<close>

definition redis_incr :: "nat \<Rightarrow> redis_client \<Rightarrow> string \<Rightarrow> exn + (int \<times> redis_client)" where
  "redis_incr now r k =
     (if \<not> online r then Inl RedisError
      else let e = (case redis_get now r k of
                      None \<Rightarrow> \<lparr>val = 1, expires_at = None\<rparr>
                    | Some e \<Rightarrow> e\<lparr>val := val e + 1\<rparr>)
           in Inr (val e, r\<lparr>keyspace := (keyspace r)(k \<mapsto> e)\<rparr>))"

text \<open>\<^verbatim>\<open>EXPIRE key seconds\<close>: no effect on an absent key.\<close>

definition redis_expire :: "nat \<Rightarrow> redis_client \<Rightarrow> string \<Rightarrow> nat \<Rightarrow> exn + redis_client" where
  "redis_expire now r k seconds =
     (if \<not> online r then Inl RedisError
      else case redis_get now r k of
             None \<Rightarrow> Inr r
           | Some e \<Rightarrow>
               Inr (r\<lparr>keyspace := (keyspace r)(k \<mapsto> e\<lparr>expires_at := Some (now + seconds)\<rparr>)\<rparr>))"

text \<open>The number a key stands for at a time: 0 when it is absent or has lapsed.\<close>

definition redis_count :: "nat \<Rightarrow> redis_client \<Rightarrow> string \<Rightarrow> int" where
  "redis_count now r k = (case redis_get now r k of None \<Rightarrow> 0 | Some e \<Rightarrow> val e)"

text \<open>The expiry a key has at a time: \<^term>\<open>None\<close> when it is absent, has lapsed or has none.\<close>

definition redis_expiry :: "nat \<Rightarrow> redis_client \<Rightarrow> string \<Rightarrow> nat option" where
  "redis_expiry now r k = (case redis_get now r k of None \<Rightarrow> None | Some e \<Rightarrow> expires_at e)"

section \<open>The server and the route \<^verbatim>\<open>POST /api/stops/answer\<close>\<close>

datatype log_entry =
  RateLimitingOff       \<comment> \<open>startup warning: \<^verbatim>\<open>REDIS_URL\<close> is not set\<close>
| RateLimitSkip         \<comment> \<open>request warning: \<^verbatim>\<open>Rate-limit skip (Redis issue)\<close>\<close>
| RequestError exn      \<comment> \<open>the error handler's \<^verbatim>\<open>req.log.error(err)\<close>\<close>

record server =
  redis :: "redis_client option"
  db :: database
  logged :: "log_entry list"

text \<open>
  Startup: \<^verbatim>\<open>redis\<close> stays \<^verbatim>\<open>null\<close> and a warning is logged when \<^verbatim>\<open>REDIS_URL\<close> is unset
  or empty; otherwise the client for the server at that address is created.
\<close>

definition init_redis ::
  "string option \<Rightarrow> redis_client \<Rightarrow> redis_client option \<times> log_entry list" where
  "init_redis REDIS_URL remote =
     (if REDIS_URL = None \<or> REDIS_URL = Some [] then (None, [RateLimitingOff])
      else (Some remote, []))"

datatype body = Error string | Correct bool

type_synonym reply = "nat \<times> body"

record answer_request =
  runId :: "string option"
  stopId :: "string option"
  answer :: "string option"

text \<open>The counter's key, \<^verbatim>\<open>`rl:${runId}:${stopId}`\<close>.\<close>

definition rl_key :: "string \<Rightarrow> string \<Rightarrow> string" where
  "rl_key run stop = ''rl:'' @ run @ '':'' @ stop"

text \<open>
  The rate-limit block of the route.  The result says whether the reply 429 was sent.
  Whatever the \<^verbatim>\<open>try\<close> block throws is caught: a warning is logged and the route goes
  on.
\<close>

definition rate_limit :: "nat \<Rightarrow> string \<Rightarrow> string \<Rightarrow> server \<Rightarrow> bool \<times> server" where
  "rate_limit now run stop s =
     (case redis s of
        None \<Rightarrow> (False, s)
      | Some r \<Rightarrow>
          (let key = rl_key run stop
           in case redis_incr now r key of
                Inl e \<Rightarrow> (False, s\<lparr>logged := logged s @ [RateLimitSkip]\<rparr>)
              | Inr (tries, r1) \<Rightarrow>
                  (case (if tries = 1 then redis_expire now r1 key 30 else Inr r1) of
                     Inl e \<Rightarrow>
                       (False, s\<lparr>redis := Some r1, logged := logged s @ [RateLimitSkip]\<rparr>)
                   | Inr r2 \<Rightarrow> (25 < tries, s\<lparr>redis := Some r2\<rparr>))))"

text \<open>
  The error handler set with \<^verbatim>\<open>app.setErrorHandler\<close>: the error is logged and the reply
  is 500 (the \<^verbatim>\<open>detail\<close> field, sent outside production only, is not modelled).
\<close>

definition internal_error :: "exn \<Rightarrow> server \<Rightarrow> reply \<times> server" where
  "internal_error e s =
     ((500, Error ''Internal Server Error''), s\<lparr>logged := logged s @ [RequestError e]\<rparr>)"

text \<open>The route after the rate-limit block: look the stop up, verify, record.\<close>

definition check_answer ::
  "(string \<Rightarrow> string \<Rightarrow> nat \<Rightarrow> byte list option) \<Rightarrow> (string \<Rightarrow> uuid option) \<Rightarrow>
   nat \<Rightarrow> string \<Rightarrow> string \<Rightarrow> string option \<Rightarrow> server \<Rightarrow> reply \<times> server" where
  "check_answer scrypt uuid_in now run stop ans s =
     (case query_answer_hash uuid_in (db s) stop of
        Inl e \<Rightarrow> internal_error e s
      | Inr None \<Rightarrow> ((404, Error ''Stop niet gevonden''), s)
      | Inr (Some answer_hash) \<Rightarrow>
          (case verifyAnswer scrypt (Some answer_hash) ans of
             Inl e \<Rightarrow> internal_error e s
           | Inr ok \<Rightarrow>
               if \<not> ok then ((200, Correct False), s)
               else (case query_upsert_solved uuid_in (db s) stop run now of
                       Inl e \<Rightarrow> internal_error e s
                     | Inr d \<Rightarrow> ((200, Correct True), s\<lparr>db := d\<rparr>))))"

text \<open>
  \<^verbatim>\<open>app.post('/api/stops/answer', ...)\<close>.  One request is served at one time \<open>now\<close>, read
  both by Redis and by \<^verbatim>\<open>now()\<close> of the database.
\<close>

definition post_stops_answer ::
  "(string \<Rightarrow> string \<Rightarrow> nat \<Rightarrow> byte list option) \<Rightarrow> (string \<Rightarrow> uuid option) \<Rightarrow>
   nat \<Rightarrow> server \<Rightarrow> answer_request \<Rightarrow> reply \<times> server" where
  "post_stops_answer scrypt uuid_in now s req =
     (case (runId req, stopId req) of
        (Some run, Some stop) \<Rightarrow>
          if run = [] \<or> stop = [] then ((400, Error ''runId/stopId verplicht''), s)
          else (case rate_limit now run stop s of
                  (True, s1) \<Rightarrow> ((429, Error ''Te veel pogingen''), s1)
                | (False, s1) \<Rightarrow> check_answer scrypt uuid_in now run stop (answer req) s1)
      | _ \<Rightarrow> ((400, Error ''runId/stopId verplicht''), s))"

text \<open>
  A client that submits again and again for one run and stop, each time at a given time
  with a given answer: the replies in order, and the server afterwards.
\<close>

fun submit_all ::
  "(string \<Rightarrow> string \<Rightarrow> nat \<Rightarrow> byte list option) \<Rightarrow> (string \<Rightarrow> uuid option) \<Rightarrow>
   string \<Rightarrow> string \<Rightarrow> server \<Rightarrow> (nat \<times> string option) list \<Rightarrow> reply list \<times> server" where
  "submit_all scrypt uuid_in run stop s [] = ([], s)"
| "submit_all scrypt uuid_in run stop s ((t, ans) # rest) =
     (case post_stops_answer scrypt uuid_in t s
             \<lparr>runId = Some run, stopId = Some stop, answer = ans\<rparr> of
        (reply, s1) \<Rightarrow>
          (case submit_all scrypt uuid_in run stop s1 rest of
             (replies, s2) \<Rightarrow> (reply # replies, s2)))"

section \<open>Example data\<close>

text \<open>
  The first stop of the seeded route (\<^verbatim>\<open>seed.sql\<close>: De Waag, answer
  \<^verbatim>\<open>plain:de waag\<close>), one team with one run, and stand-ins for the two external
  functions: a conversion that knows four identifiers, and a key derivation that fills
  the key with the total length of password and salt.
\<close>

definition example_uuid_in :: "string \<Rightarrow> uuid option" where
  "example_uuid_in x =
     (if x = ''stop-waag'' then Some 1
      else if x = ''run-1'' then Some 2
      else if x = ''run-9'' then Some 9
      else if x = ''stop-9'' then Some 10
      else None)"

definition example_scrypt :: "string \<Rightarrow> string \<Rightarrow> nat \<Rightarrow> byte list option" where
  "example_scrypt password salt keylen =
     Some (replicate keylen (word_of_nat (length password + length salt)))"

definition example_db :: database where
  "example_db =
     \<lparr>stops = [1 \<mapsto> ''plain:de waag''],
      runs = [2 \<mapsto> Some 3],
      progress = [\<lparr>team_id = Some 3, stop_id = Some 1, solved_at = Some 4, used_hint = True\<rparr>]\<rparr>"

definition example_server :: "redis_client option \<Rightarrow> server" where
  "example_server r = \<lparr>redis = r, db = example_db, logged = []\<rparr>"

section \<open>Normalisation: the code against its description\<close>

declare tokens.simps [simp del]

lemma tokens_Nil: "dropWhile isWhiteSpace s = [] \<Longrightarrow> tokens s = []"
  by (subst tokens.simps) (simp only: list.case)

lemma tokens_Cons:
  "dropWhile isWhiteSpace s = c # cs \<Longrightarrow>
   tokens s = (c # takeWhile (\<lambda>x. \<not> isWhiteSpace x) cs)
              # tokens (dropWhile (\<lambda>x. \<not> isWhiteSpace x) cs)"
  by (subst tokens.simps) (simp only: list.case)

lemma isWhiteSpace_toLowerCase_char [simp]:
  "isWhiteSpace (toLowerCase_char c) = isWhiteSpace c"
proof -
  have "of_char (char_of (of_char c + (32::nat))) = ((of_char c + 32) mod 256 :: nat)"
    by (simp only: of_char_of)
  then show ?thesis
    unfolding isWhiteSpace_def toLowerCase_char_def Let_def
    by (auto simp: mod_if split: if_splits)
qed

lemma isWhiteSpace_comp_lower: "isWhiteSpace \<circ> toLowerCase_char = isWhiteSpace"
  by (rule ext) simp

lemma not_isWhiteSpace_comp_lower:
  "(\<lambda>x. \<not> isWhiteSpace x) \<circ> toLowerCase_char = (\<lambda>x. \<not> isWhiteSpace x)"
  by (rule ext) simp

lemma trimStart_toLowerCase: "trimStart (toLowerCase s) = toLowerCase (trimStart s)"
  by (simp add: trimStart_def toLowerCase_def dropWhile_map isWhiteSpace_comp_lower)

lemma trimEnd_toLowerCase: "trimEnd (toLowerCase s) = toLowerCase (trimEnd s)"
  by (simp add: trimEnd_def toLowerCase_def rev_map dropWhile_map isWhiteSpace_comp_lower)

lemma trim_toLowerCase: "trim (toLowerCase s) = toLowerCase (trim s)"
  by (simp add: trim_def trimStart_toLowerCase trimEnd_toLowerCase)

lemma tokens_toLowerCase: "tokens (toLowerCase s) = map toLowerCase (tokens s)"
proof (induction s rule: tokens.induct)
  case (1 s)
  show ?case
  proof (cases "dropWhile isWhiteSpace s")
    case Nil
    have "dropWhile isWhiteSpace (toLowerCase s) = toLowerCase (dropWhile isWhiteSpace s)"
      by (simp add: toLowerCase_def dropWhile_map isWhiteSpace_comp_lower)
    also have "\<dots> = []" unfolding Nil by (simp add: toLowerCase_def)
    finally show ?thesis by (simp only: tokens_Nil [OF Nil] tokens_Nil list.map)
  next
    case (Cons c cs)
    have IH: "tokens (toLowerCase (dropWhile (\<lambda>x. \<not> isWhiteSpace x) cs))
          = map toLowerCase (tokens (dropWhile (\<lambda>x. \<not> isWhiteSpace x) cs))"
      using 1 [OF Cons] .
    have "dropWhile isWhiteSpace (toLowerCase s) = toLowerCase (dropWhile isWhiteSpace s)"
      by (simp add: toLowerCase_def dropWhile_map isWhiteSpace_comp_lower)
    also have "\<dots> = toLowerCase_char c # toLowerCase cs"
      unfolding Cons by (simp add: toLowerCase_def)
    finally have "tokens (toLowerCase s)
        = (toLowerCase_char c # takeWhile (\<lambda>x. \<not> isWhiteSpace x) (toLowerCase cs))
          # tokens (dropWhile (\<lambda>x. \<not> isWhiteSpace x) (toLowerCase cs))"
      by (rule tokens_Cons)
    also have "takeWhile (\<lambda>x. \<not> isWhiteSpace x) (toLowerCase cs)
        = toLowerCase (takeWhile (\<lambda>x. \<not> isWhiteSpace x) cs)"
      by (simp add: toLowerCase_def takeWhile_map not_isWhiteSpace_comp_lower)
    also have "dropWhile (\<lambda>x. \<not> isWhiteSpace x) (toLowerCase cs)
        = toLowerCase (dropWhile (\<lambda>x. \<not> isWhiteSpace x) cs)"
      by (simp add: toLowerCase_def dropWhile_map not_isWhiteSpace_comp_lower)
    finally show ?thesis
      using IH by (simp add: tokens_Cons [OF Cons] toLowerCase_def)
  qed
qed

lemma trimEnd_append:
  "trimEnd (a @ b) = (if \<forall>x\<in>set b. isWhiteSpace x then trimEnd a else a @ trimEnd b)"
  by (simp add: trimEnd_def dropWhile_append)

lemma trimEnd_all_ws: "\<forall>x\<in>set b. isWhiteSpace x \<Longrightarrow> trimEnd b = []"
  by (simp add: trimEnd_def)

lemma trimEnd_Cons_nonws:
  "\<not> isWhiteSpace c \<Longrightarrow> \<exists>t. trimEnd (c # cs) = c # t"
  using trimEnd_append [of "[c]" cs] by (auto simp: trimEnd_def)

lemma trimEnd_no_ws: "\<forall>x\<in>set w. \<not> isWhiteSpace x \<Longrightarrow> trimEnd w = w"
proof (cases "rev w")
  case Nil
  then show ?thesis by (simp add: trimEnd_def)
next
  case (Cons y ys)
  assume a: "\<forall>x\<in>set w. \<not> isWhiteSpace x"
  from Cons have "y \<in> set w" by (metis list.set_intros(1) set_rev)
  with a have "\<not> isWhiteSpace y" by blast
  with Cons have "rev (dropWhile isWhiteSpace (rev w)) = rev (rev w)" by simp
  then show ?thesis by (simp add: trimEnd_def)
qed

lemma trimStart_trimEnd: "trimStart (trimEnd t) = trimEnd (trimStart t)"
proof (cases "dropWhile isWhiteSpace t")
  case Nil
  then have "\<forall>x\<in>set t. isWhiteSpace x" by (simp add: dropWhile_eq_Nil_conv)
  then have "trimEnd t = []" by (rule trimEnd_all_ws)
  moreover have "trimEnd [] = []" by (simp add: trimEnd_def)
  ultimately show ?thesis unfolding trimStart_def Nil by simp
next
  case (Cons y ys)
  then have y: "\<not> isWhiteSpace y" and t: "t = takeWhile isWhiteSpace t @ y # ys"
    by (simp_all add: dropWhile_eq_Cons_conv)
  obtain u where u: "trimEnd (y # ys) = y # u"
    using trimEnd_Cons_nonws [OF y] by blast
  have "trimEnd t = trimEnd (takeWhile isWhiteSpace t @ y # ys)" using t by simp
  also have "\<dots> = takeWhile isWhiteSpace t @ trimEnd (y # ys)"
    using y by (subst trimEnd_append) auto
  finally have "trimStart (trimEnd t) = trimStart (takeWhile isWhiteSpace t @ y # u)"
    using u by simp
  also have "\<dots> = y # u"
    using y by (simp add: trimStart_def dropWhile_append) (meson set_takeWhileD)
  finally show ?thesis using Cons u by (simp add: trimStart_def)
qed

lemma replace_ws_no_ws_append:
  "\<forall>x\<in>set w. \<not> isWhiteSpace x \<Longrightarrow> replace_ws (w @ r) = w @ replace_ws r"
  by (induction w) simp_all

lemma tokens_Nil_iff: "tokens r = [] \<longleftrightarrow> (\<forall>x\<in>set r. isWhiteSpace x)"
proof (cases "dropWhile isWhiteSpace r")
  case Nil
  then show ?thesis using tokens_Nil [OF Nil] by simp
next
  case (Cons c cs)
  then have "\<not> (\<forall>x\<in>set r. isWhiteSpace x)"
    by (metis dropWhile_eq_Nil_conv list.distinct(1))
  then show ?thesis using tokens_Cons [OF Cons] by simp
qed

lemma join_space_Cons:
  "join_space (w # ws) = (if ws = [] then w else w @ CHR '' '' # join_space ws)"
  by (cases ws) simp_all

lemma replace_ws_trim_tokens: "replace_ws (trim s) = join_space (tokens s)"
proof (induction s rule: tokens.induct)
  case (1 s)
  show ?case
  proof (cases "dropWhile isWhiteSpace s")
    case Nil
    show ?thesis
      unfolding trim_def trimStart_def Nil by (simp add: tokens_Nil [OF Nil] trimEnd_def)
  next
    case (Cons c cs)
    define w where "w = c # takeWhile (\<lambda>x. \<not> isWhiteSpace x) cs"
    define r where "r = dropWhile (\<lambda>x. \<not> isWhiteSpace x) cs"
    have c: "\<not> isWhiteSpace c" using Cons by (simp add: dropWhile_eq_Cons_conv)
    have w: "\<forall>x\<in>set w. \<not> isWhiteSpace x"
      using c by (auto simp: w_def dest: set_takeWhileD)
    have split: "c # cs = w @ r" by (simp add: w_def r_def)
    have tok: "tokens s = w # tokens r"
      using tokens_Cons [OF Cons] by (simp add: w_def r_def)
    have IH: "replace_ws (trim r) = join_space (tokens r)"
      using 1 [OF Cons] by (simp add: r_def)
    have trim_s: "trim s = trimEnd (w @ r)"
      unfolding trim_def trimStart_def Cons split ..
    show ?thesis
    proof (cases "\<forall>x\<in>set r. isWhiteSpace x")
      case True
      then have "trim s = w" using trim_s w by (simp add: trimEnd_append trimEnd_no_ws)
      moreover have "tokens r = []" using True by (simp add: tokens_Nil_iff)
      moreover have "replace_ws w = w" using replace_ws_no_ws_append [OF w, of "[]"] by simp
      ultimately show ?thesis using tok by simp
    next
      case False
      then have trim_s': "trim s = w @ trimEnd r"
        by (simp only: trim_s trimEnd_append if_False)
      from False have "r \<noteq> []" by auto
      then obtain x r' where r: "r = x # r'" by (cases r) auto
      have x: "isWhiteSpace x"
        using r unfolding r_def by (simp add: dropWhile_eq_Cons_conv)
      have r': "\<not> (\<forall>y\<in>set r'. isWhiteSpace y)" using False r x by auto
      have "trimEnd r = x # trimEnd r'"
        using trimEnd_append [of "[x]" r'] r r' by simp
      then have "replace_ws (trimEnd r) = CHR '' '' # replace_ws (trimStart (trimEnd r'))"
        using x by (simp add: trimStart_def)
      also have "trimStart (trimEnd r') = trim r"
        using r x trimStart_trimEnd [of r'] by (simp add: trim_def trimStart_def)
      finally have "replace_ws (trim s) = w @ CHR '' '' # join_space (tokens r)"
        using trim_s' IH replace_ws_no_ws_append [OF w] by simp
      moreover have "tokens r \<noteq> []" using False by (simp add: tokens_Nil_iff)
      ultimately show ?thesis using tok by (simp add: join_space_Cons)
    qed
  qed
qed

lemma normalizeAnswer_refines:
  "normalizeAnswer (Some s) = spec_normalize s"
  by (simp add: normalizeAnswer_def spec_normalize_def trim_toLowerCase [symmetric]
      replace_ws_trim_tokens tokens_toLowerCase)

lemma split_append:
  "sep \<notin> set a \<Longrightarrow> split sep (a @ sep # b) = a # split sep b"
  by (induction a) (auto split: list.splits)

lemma split_hd: "\<exists>rest. split sep b = takeWhile (\<lambda>c. c \<noteq> sep) b # rest"
  by (induction b) (auto split: list.splits)

lemma hex_decode_takeWhile:
  "unhex sep = None \<Longrightarrow> hex_decode (takeWhile (\<lambda>c. c \<noteq> sep) d) = hex_decode d"
  by (induction d rule: hex_decode.induct) (auto split: option.splits)

lemma unhex_colon: "unhex CHR '':'' = None"
  by (simp add: unhex_def)

text \<open>
  Claim C8.  For every input string, \<^verbatim>\<open>normalizeAnswer\<close> returns the words of the
  input (its maximal runs of characters that are not whitespace), lowercased and joined
  by single spaces: leading and trailing whitespace is gone and every inner run of
  whitespace is one space.  An absent and an empty input give the empty string, and
  \<^verbatim>\<open>" Deventer  Koekbier "\<close> gives \<^verbatim>\<open>"deventer koekbier"\<close>.
\<close>

theorem normalizeAnswer_words:
  "normalizeAnswer (Some s) = spec_normalize s \<and>
   normalizeAnswer None = [] \<and>
   normalizeAnswer (Some []) = [] \<and>
   normalizeAnswer (Some '' Deventer  Koekbier '') = ''deventer koekbier''"
proof (intro conjI)
  show "normalizeAnswer (Some s) = spec_normalize s"
    by (rule normalizeAnswer_refines)
  show "normalizeAnswer None = []"
    by (simp add: normalizeAnswer_def trim_def trimStart_def trimEnd_def toLowerCase_def)
  show "normalizeAnswer (Some []) = []"
    by (simp add: normalizeAnswer_def trim_def trimStart_def trimEnd_def toLowerCase_def)
  show "normalizeAnswer (Some '' Deventer  Koekbier '') = ''deventer koekbier''"
    by code_simp
qed

theorem normalizeAnswer_words_witness:
  "normalizeAnswer (Some ''De   Waag'') = ''de waag''"
proof -
  have "spec_normalize ''De   Waag'' = ''de waag''" by code_simp
  with normalizeAnswer_words [of "''De   Waag''"] show ?thesis by simp
qed

section \<open>Verification of an answer\<close>

text \<open>
  Claim C7.  For a credential \<^verbatim>\<open>plain:<answer>\<close> and every input, the result is true
  exactly when \<^verbatim>\<open><answer>\<close>, taken as it is stored, equals the normalised input.  So
  \<^verbatim>\<open>plain:de waag\<close> accepts \<^verbatim>\<open>"De   Waag"\<close> and rejects \<^verbatim>\<open>"dewaag"\<close>.
\<close>

theorem verifyAnswer_plain:
  "verifyAnswer scrypt (Some (''plain:'' @ stored_answer)) input
     = Inr (stored_answer = normalizeAnswer input) \<and>
   verifyAnswer scrypt (Some ''plain:de waag'') (Some ''De   Waag'') = Inr True \<and>
   verifyAnswer scrypt (Some ''plain:de waag'') (Some ''dewaag'') = Inr False"
proof (intro conjI)
  show "verifyAnswer scrypt (Some (''plain:'' @ stored_answer)) input
     = Inr (stored_answer = normalizeAnswer input)"
    by (simp add: verifyAnswer_def)
  show "verifyAnswer scrypt (Some ''plain:de waag'') (Some ''De   Waag'') = Inr True"
    by code_simp
  show "verifyAnswer scrypt (Some ''plain:de waag'') (Some ''dewaag'') = Inr False"
    by code_simp
qed

theorem verifyAnswer_plain_witness:
  "verifyAnswer (\<lambda>p s n. None) (Some ''plain:De Waag'') (Some ''De Waag'') = Inr False"
proof -
  have "normalizeAnswer (Some ''De Waag'') = ''de waag''" by code_simp
  with verifyAnswer_plain [of "\<lambda>p s n. None" "''De Waag''" "Some ''De Waag''"]
  show ?thesis by simp
qed

text \<open>
  Claim C9.  A missing or empty credential gives false for every input, and nothing is
  thrown.  A credential that is not empty and starts with neither \<^verbatim>\<open>plain:\<close> nor
  \<^verbatim>\<open>scrypt:\<close> gives true exactly when the whole credential equals the normalised
  input.
\<close>

theorem verifyAnswer_missing_or_untagged:
  "verifyAnswer scrypt None input = Inr False \<and>
   verifyAnswer scrypt (Some []) input = Inr False \<and>
   (stored \<noteq> [] \<longrightarrow> \<not> prefix ''plain:'' stored \<longrightarrow> \<not> prefix ''scrypt:'' stored \<longrightarrow>
      verifyAnswer scrypt (Some stored) input = Inr (stored = normalizeAnswer input))"
  by (simp add: verifyAnswer_def)

theorem verifyAnswer_missing_or_untagged_witness:
  "verifyAnswer (\<lambda>p s n. None) (Some ''lebuinus'') (Some '' Lebuinus'') = Inr True \<and>
   verifyAnswer (\<lambda>p s n. None) (Some ''unknown-tag:xyz'') (Some ''xyz'') = Inr False"
proof -
  have n1: "normalizeAnswer (Some '' Lebuinus'') = ''lebuinus''" by code_simp
  have n2: "normalizeAnswer (Some ''xyz'') = ''xyz''" by code_simp
  have p1: "''lebuinus'' \<noteq> [] \<and> \<not> prefix ''plain:'' ''lebuinus'' \<and> \<not> prefix ''scrypt:'' ''lebuinus''"
    by simp
  have p2: "''unknown-tag:xyz'' \<noteq> [] \<and> \<not> prefix ''plain:'' ''unknown-tag:xyz''
      \<and> \<not> prefix ''scrypt:'' ''unknown-tag:xyz''"
    by simp
  from verifyAnswer_missing_or_untagged [of "\<lambda>p s n. None" "Some '' Lebuinus''" "''lebuinus''"]
    verifyAnswer_missing_or_untagged [of "\<lambda>p s n. None" "Some ''xyz''" "''unknown-tag:xyz''"]
    p1 p2 n1 n2
  show ?thesis by simp
qed

text \<open>
  Claim C6.  For a credential \<^verbatim>\<open>scrypt:<salt>:<digest>\<close> (a salt has no colon) and every
  input, the result is true exactly when the 32-byte key derived from the normalised input
  and the salt equals the bytes that \<^verbatim>\<open><digest>\<close> decodes to.  Whenever a key is
  derived, the result is that comparison, so another salt or another input whose key
  differs from the digest gives false.  The result depends on the input through its
  normalisation only.
\<close>

theorem verifyAnswer_scrypt:
  assumes "CHR '':'' \<notin> set salt"
  shows "(verifyAnswer scrypt (Some (''scrypt:'' @ salt @ '':'' @ digest)) input = Inr True
            \<longleftrightarrow> scrypt (normalizeAnswer input) salt 32 = Some (hex_decode digest)) \<and>
         (\<forall>key. scrypt (normalizeAnswer input) salt 32 = Some key \<longrightarrow>
            verifyAnswer scrypt (Some (''scrypt:'' @ salt @ '':'' @ digest)) input
              = Inr (hex_decode digest = key)) \<and>
         (\<forall>input'. normalizeAnswer input' = normalizeAnswer input \<longrightarrow>
            verifyAnswer scrypt (Some (''scrypt:'' @ salt @ '':'' @ digest)) input'
              = verifyAnswer scrypt (Some (''scrypt:'' @ salt @ '':'' @ digest)) input)"
proof -
  let ?st = "''scrypt:'' @ salt @ '':'' @ digest"
  obtain rest where rest: "split CHR '':'' digest = takeWhile (\<lambda>c. c \<noteq> CHR '':'') digest # rest"
    using split_hd by blast
  have "?st = ''scrypt'' @ CHR '':'' # (salt @ CHR '':'' # digest)" by simp
  then have "split CHR '':'' ?st = ''scrypt'' # split CHR '':'' (salt @ CHR '':'' # digest)"
    using split_append [of "CHR '':''" "''scrypt''"] by (simp del: split.simps)
  then have sp: "split CHR '':'' ?st
      = ''scrypt'' # salt # takeWhile (\<lambda>c. c \<noteq> CHR '':'') digest # rest"
    using split_append [OF assms, of digest] rest by simp
  have hx: "hex_decode (takeWhile (\<lambda>c. c \<noteq> CHR '':'') digest) = hex_decode digest"
    by (rule hex_decode_takeWhile [OF unhex_colon])
  have v: "verifyAnswer scrypt (Some ?st) i =
      (case scrypt (normalizeAnswer i) salt 32 of
         None \<Rightarrow> Inl ScryptError | Some key \<Rightarrow> Inr (hex_decode digest = key))" for i
    using sp hx by (simp add: verifyAnswer_def del: split.simps split: option.splits)
  show ?thesis
    unfolding v by (auto split: option.splits)
qed

theorem verifyAnswer_scrypt_witness:
  "CHR '':'' \<notin> set ''ab'' \<and>
   verifyAnswer example_scrypt
     (Some ''scrypt:ab:0909090909090909090909090909090909090909090909090909090909090909'')
     (Some '' De  Waag '') = Inr True \<and>
   verifyAnswer example_scrypt
     (Some ''scrypt:ab:0909090909090909090909090909090909090909090909090909090909090909'')
     (Some ''Waag'') = Inr False"
proof -
  let ?d = "''0909090909090909090909090909090909090909090909090909090909090909''"
  have h: "CHR '':'' \<notin> set ''ab''" by simp
  have k1: "example_scrypt (normalizeAnswer (Some '' De  Waag '')) ''ab'' 32
      = Some (hex_decode ?d)" by code_simp
  have k2: "example_scrypt (normalizeAnswer (Some ''Waag'')) ''ab'' 32
      = Some (replicate 32 6)" by code_simp
  have k3: "hex_decode ?d \<noteq> replicate 32 6" by code_simp
  from verifyAnswer_scrypt [OF h, of example_scrypt ?d "Some '' De  Waag ''"] k1
  have a: "verifyAnswer example_scrypt (Some (''scrypt:'' @ ''ab'' @ '':'' @ ?d))
      (Some '' De  Waag '') = Inr True" by blast
  from verifyAnswer_scrypt [OF h, of example_scrypt ?d "Some ''Waag''"] k2 k3
  have b: "verifyAnswer example_scrypt (Some (''scrypt:'' @ ''ab'' @ '':'' @ ?d))
      (Some ''Waag'') = Inr False" by simp
  from h a b show ?thesis by simp
qed

section \<open>The progress table under the two upserts\<close>

lemma progress_unique_iff:
  "progress_unique tbl \<longleftrightarrow> (\<forall>t s. length (rows_for t s tbl) \<le> 1)"
proof
  assume u: "progress_unique tbl"
  show "\<forall>t s. length (rows_for t s tbl) \<le> 1"
  proof (intro allI)
    fix t s
    show "length (rows_for t s tbl) \<le> 1"
    proof (cases "rows_for t s tbl")
      case Nil
      then show ?thesis by simp
    next
      case (Cons r rs)
      then have "r \<in> set (rows_for t s tbl)" by simp
      then have "r \<in> set tbl" "team_id r = Some t" "stop_id r = Some s"
        by (simp_all add: rows_for_def)
      with u show ?thesis
        by (auto simp: progress_unique_def list_all_iff)
    qed
  qed
next
  assume "\<forall>t s. length (rows_for t s tbl) \<le> 1"
  then show "progress_unique tbl"
    by (auto simp: progress_unique_def list_all_iff split: option.splits)
qed

lemma rows_for_map:
  assumes "\<And>r. team_id (f r) = team_id r \<and> stop_id (f r) = stop_id r"
  shows "rows_for t s (map f tbl) = map f (rows_for t s tbl)"
  by (induction tbl) (simp_all add: rows_for_def assms)

lemma rows_for_no_conflict:
  assumes "\<not> list_ex (conflicts new) tbl" "team_id new = Some t" "stop_id new = Some s"
  shows "rows_for t s tbl = []"
  using assms by (auto simp: rows_for_def conflicts_def list_ex_iff filter_empty_conv)

lemma rows_for_insert_on_conflict:
  assumes "\<And>old. team_id (do_update old new) = team_id old
              \<and> stop_id (do_update old new) = stop_id old"
  shows "rows_for t s (insert_on_conflict do_update new tbl) =
     (if list_ex (conflicts new) tbl
      then map (\<lambda>old. if conflicts new old then do_update old new else old) (rows_for t s tbl)
      else rows_for t s tbl @ (if team_id new = Some t \<and> stop_id new = Some s then [new] else []))"
proof (cases "list_ex (conflicts new) tbl")
  case True
  have "rows_for t s (map (\<lambda>old. if conflicts new old then do_update old new else old) tbl)
      = map (\<lambda>old. if conflicts new old then do_update old new else old) (rows_for t s tbl)"
    by (rule rows_for_map) (simp add: assms)
  with True show ?thesis by (simp add: insert_on_conflict_def)
next
  case False
  then show ?thesis by (simp add: insert_on_conflict_def rows_for_def)
qed

lemma insert_on_conflict_unique:
  assumes keys: "\<And>old. team_id (do_update old new) = team_id old
              \<and> stop_id (do_update old new) = stop_id old"
    and u: "progress_unique tbl"
  shows "progress_unique (insert_on_conflict do_update new tbl)"
  unfolding progress_unique_iff
proof (intro allI)
  fix t s
  have le: "length (rows_for t s tbl) \<le> 1" using u by (simp add: progress_unique_iff)
  note rf = rows_for_insert_on_conflict [of do_update new t s tbl, OF keys]
  show "length (rows_for t s (insert_on_conflict do_update new tbl)) \<le> 1"
  proof (cases "list_ex (conflicts new) tbl")
    case True
    then show ?thesis using le by (simp add: rf)
  next
    case False
    show ?thesis
    proof (cases "team_id new = Some t \<and> stop_id new = Some s")
      case True
      then have "rows_for t s tbl = []" using rows_for_no_conflict [OF False] by simp
      then show ?thesis using False by (simp add: rf)
    next
      case no: False
      then show ?thesis using False le by (auto simp add: rf)
    qed
  qed
qed

lemma insert_on_conflict_nth:
  assumes "i < length tbl"
  shows "insert_on_conflict do_update new tbl ! i =
     (if conflicts new (tbl ! i) then do_update (tbl ! i) new else tbl ! i)"
proof (cases "list_ex (conflicts new) tbl")
  case True
  then show ?thesis using assms by (simp add: insert_on_conflict_def)
next
  case False
  then have "\<not> conflicts new (tbl ! i)" using assms by (auto simp: list_ex_iff)
  then show ?thesis using False assms by (simp add: insert_on_conflict_def nth_append)
qed

lemma insert_on_conflict_length:
  "length tbl \<le> length (insert_on_conflict do_update new tbl)"
  by (simp add: insert_on_conflict_def)

lemma upsert_solved_unique:
  "progress_unique (progress d) \<Longrightarrow> progress_unique (progress (upsert_solved d stop run now))"
  by (simp add: upsert_solved_def insert_on_conflict_unique split: option.splits)

lemma upsert_hint_unique:
  "progress_unique (progress d) \<Longrightarrow> progress_unique (progress (upsert_hint d stop run))"
  by (simp add: upsert_hint_def insert_on_conflict_unique split: option.splits)

lemma upsert_solved_nth:
  assumes "i < length (progress d)"
  shows "team_id (progress (upsert_solved d stop run now) ! i) = team_id (progress d ! i) \<and>
         stop_id (progress (upsert_solved d stop run now) ! i) = stop_id (progress d ! i) \<and>
         used_hint (progress (upsert_solved d stop run now) ! i) = used_hint (progress d ! i) \<and>
         (solved_at (progress d ! i) \<noteq> None \<longrightarrow>
            solved_at (progress (upsert_solved d stop run now) ! i) \<noteq> None)"
  using assms by (simp add: upsert_solved_def insert_on_conflict_nth split: option.splits)

lemma upsert_hint_nth:
  assumes "i < length (progress d)"
  shows "team_id (progress (upsert_hint d stop run) ! i) = team_id (progress d ! i) \<and>
         stop_id (progress (upsert_hint d stop run) ! i) = stop_id (progress d ! i) \<and>
         solved_at (progress (upsert_hint d stop run) ! i) = solved_at (progress d ! i) \<and>
         (used_hint (progress d ! i) \<longrightarrow> used_hint (progress (upsert_hint d stop run) ! i))"
  using assms by (simp add: upsert_hint_def insert_on_conflict_nth split: option.splits)

lemma upsert_solved_row:
  assumes u: "progress_unique (progress d)" and run: "runs d run = Some (Some team)"
  shows "\<exists>row. rows_for team stop (progress (upsert_solved d stop run now)) = [row] \<and>
           solved_at row = Some now \<and>
           used_hint row = (case rows_for team stop (progress d) of
                              [] \<Rightarrow> False | r0 # _ \<Rightarrow> used_hint r0)"
proof -
  let ?new = "\<lparr>team_id = Some team, stop_id = Some stop, solved_at = Some now, used_hint = False\<rparr>"
  let ?upd = "\<lambda>old excluded :: progress_row. old\<lparr>solved_at := solved_at excluded\<rparr>"
  have p: "progress (upsert_solved d stop run now) = insert_on_conflict ?upd ?new (progress d)"
    using run by (simp add: upsert_solved_def)
  have rf: "rows_for team stop (insert_on_conflict ?upd ?new (progress d)) =
     (if list_ex (conflicts ?new) (progress d)
      then map (\<lambda>old. if conflicts ?new old then ?upd old ?new else old)
             (rows_for team stop (progress d))
      else rows_for team stop (progress d) @ [?new])"
    by (subst rows_for_insert_on_conflict) simp_all
  show ?thesis
  proof (cases "list_ex (conflicts ?new) (progress d)")
    case True
    then obtain r0 where "r0 \<in> set (progress d)" "conflicts ?new r0"
      by (auto simp: list_ex_iff)
    then have "r0 \<in> set (rows_for team stop (progress d))"
      by (simp add: rows_for_def conflicts_def)
    moreover have "length (rows_for team stop (progress d)) \<le> 1"
      using u by (simp add: progress_unique_iff)
    ultimately obtain r where r: "rows_for team stop (progress d) = [r]"
      by (cases "rows_for team stop (progress d)") auto
    then have "r \<in> set (rows_for team stop (progress d))" by simp
    then have "conflicts ?new r" by (simp add: rows_for_def conflicts_def)
    then show ?thesis using True r by (simp add: p rf)
  next
    case False
    then have "rows_for team stop (progress d) = []"
      using rows_for_no_conflict [OF False] by simp
    then show ?thesis using False by (simp add: p rf)
  qed
qed

lemma runs_upsert_solved [simp]: "runs (upsert_solved d stop run now) = runs d"
  by (simp add: upsert_solved_def split: option.splits)

text \<open>
  Claim C2.  Both upserts keep at most one row per (team, stop) pair.  Every row that
  was there stays at its place; the hint upsert leaves its solved timestamp as it was and
  never resets its hint flag, the solved upsert leaves its hint flag as it was and never
  clears its solved timestamp.  Two solved upserts in a row for the run of a team leave
  exactly one row for (team, stop): it carries the time of the second call, and its hint
  flag is the one after the first call and the one of the row that was there before, if
  there was one; the second call adds no row.
\<close>

theorem progress_upserts_preserve_invariant:
  assumes u: "progress_unique (progress d)"
  shows "progress_unique (progress (upsert_solved d stop run now)) \<and>
         progress_unique (progress (upsert_hint d stop run)) \<and>
         (\<forall>i < length (progress d).
            solved_at (progress (upsert_hint d stop run) ! i) = solved_at (progress d ! i) \<and>
            (used_hint (progress d ! i) \<longrightarrow> used_hint (progress (upsert_hint d stop run) ! i))) \<and>
         (\<forall>i < length (progress d).
            used_hint (progress (upsert_solved d stop run now) ! i) = used_hint (progress d ! i) \<and>
            (solved_at (progress d ! i) \<noteq> None \<longrightarrow>
               solved_at (progress (upsert_solved d stop run now) ! i) \<noteq> None)) \<and>
         (\<forall>team. runs d run = Some (Some team) \<longrightarrow>
            (\<exists>r1 r2.
               rows_for team stop (progress (upsert_solved d stop run now)) = [r1] \<and>
               rows_for team stop
                 (progress (upsert_solved (upsert_solved d stop run now) stop run later)) = [r2] \<and>
               solved_at r2 = Some later \<and>
               used_hint r2 = used_hint r1 \<and>
               (\<forall>r0 \<in> set (rows_for team stop (progress d)). used_hint r2 = used_hint r0) \<and>
               length (progress (upsert_solved (upsert_solved d stop run now) stop run later))
                 = length (progress (upsert_solved d stop run now))))"
proof (intro conjI allI impI)
  show u1: "progress_unique (progress (upsert_solved d stop run now))"
    using u by (rule upsert_solved_unique)
  show "progress_unique (progress (upsert_hint d stop run))"
    using u by (rule upsert_hint_unique)
  show "solved_at (progress (upsert_hint d stop run) ! i) = solved_at (progress d ! i)"
    if "i < length (progress d)" for i using upsert_hint_nth [OF that] by simp
  show "used_hint (progress (upsert_hint d stop run) ! i)"
    if "i < length (progress d)" "used_hint (progress d ! i)" for i
    using upsert_hint_nth [OF that(1)] that(2) by simp
  show "used_hint (progress (upsert_solved d stop run now) ! i) = used_hint (progress d ! i)"
    if "i < length (progress d)" for i using upsert_solved_nth [OF that] by simp
  show "solved_at (progress (upsert_solved d stop run now) ! i) \<noteq> None"
    if "i < length (progress d)" "solved_at (progress d ! i) \<noteq> None" for i
    using upsert_solved_nth [OF that(1)] that(2) by simp
next
  fix team assume run: "runs d run = Some (Some team)"
  let ?d1 = "upsert_solved d stop run now"
  let ?d2 = "upsert_solved ?d1 stop run later"
  have u1: "progress_unique (progress ?d1)" using u by (rule upsert_solved_unique)
  obtain r1 where r1: "rows_for team stop (progress ?d1) = [r1]"
      "used_hint r1 = (case rows_for team stop (progress d) of
                              [] \<Rightarrow> False | r0 # _ \<Rightarrow> used_hint r0)"
    using upsert_solved_row [OF u run] by blast
  have run1: "runs ?d1 run = Some (Some team)" using run by simp
  obtain r2 where r2: "rows_for team stop (progress ?d2) = [r2]" "solved_at r2 = Some later"
      "used_hint r2 = (case rows_for team stop (progress ?d1) of
                              [] \<Rightarrow> False | r0 # _ \<Rightarrow> used_hint r0)"
    using upsert_solved_row [OF u1 run1] by blast
  have h: "used_hint r2 = used_hint r1" using r1 r2 by simp
  have "length (rows_for team stop (progress d)) \<le> 1"
    using u by (simp add: progress_unique_iff)
  then have old: "\<forall>r0 \<in> set (rows_for team stop (progress d)). used_hint r1 = used_hint r0"
    using r1(2) by (cases "rows_for team stop (progress d)") auto
  have "list_ex (conflicts \<lparr>team_id = Some team, stop_id = Some stop, solved_at = Some later,
            used_hint = False\<rparr>) (progress ?d1)"
  proof -
    have "r1 \<in> set (rows_for team stop (progress ?d1))" using r1 by simp
    then show ?thesis by (auto simp: rows_for_def list_ex_iff conflicts_def)
  qed
  then have len: "length (progress ?d2) = length (progress ?d1)"
    using run1 by (simp add: upsert_solved_def [of ?d1] insert_on_conflict_def)
  show "\<exists>r1 r2.
               rows_for team stop (progress (upsert_solved d stop run now)) = [r1] \<and>
               rows_for team stop
                 (progress (upsert_solved (upsert_solved d stop run now) stop run later)) = [r2] \<and>
               solved_at r2 = Some later \<and>
               used_hint r2 = used_hint r1 \<and>
               (\<forall>r0 \<in> set (rows_for team stop (progress d)). used_hint r2 = used_hint r0) \<and>
               length (progress (upsert_solved (upsert_solved d stop run now) stop run later))
                 = length (progress (upsert_solved d stop run now))"
    using r1(1) r2(1,2) h old len by auto
qed

theorem progress_upserts_preserve_invariant_witness:
  "progress_unique (progress example_db) \<and>
   progress_unique (progress (upsert_solved example_db 1 2 10)) \<and>
   progress_unique (progress (upsert_hint example_db 1 2)) \<and>
   solved_at (progress (upsert_hint example_db 1 2) ! 0) = Some 4 \<and>
   used_hint (progress (upsert_solved example_db 1 2 10) ! 0) \<and>
   (\<exists>r2. rows_for 3 1 (progress (upsert_solved (upsert_solved example_db 1 2 10) 1 2 20)) = [r2] \<and>
      solved_at r2 = Some 20 \<and> used_hint r2)"
proof -
  have u: "progress_unique (progress example_db)"
    by (simp add: progress_unique_def rows_for_def example_db_def)
  have run: "runs example_db 2 = Some (Some 3)" by (simp add: example_db_def)
  have len: "0 < length (progress example_db)" by (simp add: example_db_def)
  have row: "progress example_db ! 0
      = \<lparr>team_id = Some 3, stop_id = Some 1, solved_at = Some 4, used_hint = True\<rparr>"
    by (simp add: example_db_def)
  have old: "rows_for 3 1 (progress example_db)
      = [\<lparr>team_id = Some 3, stop_id = Some 1, solved_at = Some 4, used_hint = True\<rparr>]"
    by (simp add: example_db_def rows_for_def)
  note t = progress_upserts_preserve_invariant [OF u, of 1 2 10 20]
  from t have a: "progress_unique (progress (upsert_solved example_db 1 2 10))"
    and b: "progress_unique (progress (upsert_hint example_db 1 2))" by simp_all
  from t len have c: "solved_at (progress (upsert_hint example_db 1 2) ! 0)
      = solved_at (progress example_db ! 0)" by blast
  from t len have d: "used_hint (progress (upsert_solved example_db 1 2 10) ! 0)
      = used_hint (progress example_db ! 0)" by blast
  from t run obtain r1 r2 where
    e: "rows_for 3 1 (progress (upsert_solved (upsert_solved example_db 1 2 10) 1 2 20)) = [r2]"
      "solved_at r2 = Some 20"
      "\<forall>r0 \<in> set (rows_for 3 1 (progress example_db)). used_hint r2 = used_hint r0"
    by blast
  from e(3) old have "used_hint r2" by simp
  with u a b c d e(1,2) row show ?thesis by simp
qed

section \<open>The throttle\<close>

lemma redis_get_upd_same:
  "redis_get now (r\<lparr>keyspace := (keyspace r)(k \<mapsto> e)\<rparr>) k =
     (case expires_at e of None \<Rightarrow> Some e | Some t \<Rightarrow> if now < t then Some e else None)"
  by (simp add: redis_get_def)

lemma redis_get_live: "redis_get now r k = Some e \<Longrightarrow> (case expires_at e of None \<Rightarrow> True | Some t \<Rightarrow> now < t)"
  by (auto simp: redis_get_def split: option.splits if_splits)

lemma rate_limit_online:
  assumes "redis s = Some r" "online r"
  shows "rate_limit now run stop s =
     (25 < redis_count now r (rl_key run stop) + 1,
      s\<lparr>redis := Some (r\<lparr>keyspace := (keyspace r)(rl_key run stop \<mapsto>
          \<lparr>val = redis_count now r (rl_key run stop) + 1,
           expires_at = (if redis_count now r (rl_key run stop) + 1 = 1 then Some (now + 30)
                         else redis_expiry now r (rl_key run stop))\<rparr>)\<rparr>)\<rparr>)"
proof (cases "redis_get now r (rl_key run stop)")
  case None
  then show ?thesis using assms
    by (simp add: rate_limit_def redis_incr_def redis_expire_def redis_count_def
        redis_expiry_def redis_get_upd_same)
next
  case (Some e)
  note live = redis_get_live [OF Some]
  show ?thesis
  proof (cases "val e = 0")
    case True
    then show ?thesis using assms Some live
      by (cases e) (auto simp add: rate_limit_def redis_incr_def redis_expire_def redis_count_def
          redis_expiry_def redis_get_upd_same split: option.splits)
  next
    case False
    then show ?thesis using assms Some
      by (cases e) (simp add: rate_limit_def redis_incr_def redis_expire_def redis_count_def
          redis_expiry_def)
  qed
qed

lemma redis_count_upd_same:
  "redis_count now (r\<lparr>keyspace := (keyspace r)(k \<mapsto> \<lparr>val = v, expires_at = x\<rparr>)\<rparr>) k =
     (case x of None \<Rightarrow> v | Some t \<Rightarrow> if now < t then v else 0)"
  by (simp add: redis_count_def redis_get_def split: option.splits)

lemma redis_expiry_upd_same:
  "redis_expiry now (r\<lparr>keyspace := (keyspace r)(k \<mapsto> \<lparr>val = v, expires_at = x\<rparr>)\<rparr>) k =
     (case x of None \<Rightarrow> None | Some t \<Rightarrow> if now < t then Some t else None)"
  by (simp add: redis_expiry_def redis_get_def split: option.splits)

lemma check_answer_not_429: "fst (fst (check_answer scrypt uuid_in now run stop ans s)) \<noteq> 429"
  by (simp add: check_answer_def internal_error_def split: sum.splits option.splits)

lemma check_answer_redis: "redis (snd (check_answer scrypt uuid_in now run stop ans s)) = redis s"
  by (simp add: check_answer_def internal_error_def split: sum.splits option.splits)

lemma post_stops_answer_ids:
  assumes "run \<noteq> []" "stop \<noteq> []"
  shows "post_stops_answer scrypt uuid_in now s \<lparr>runId = Some run, stopId = Some stop, answer = ans\<rparr>
    = (case rate_limit now run stop s of
         (True, s1) \<Rightarrow> ((429, Error ''Te veel pogingen''), s1)
       | (False, s1) \<Rightarrow> check_answer scrypt uuid_in now run stop ans s1)"
  using assms by (simp add: post_stops_answer_def split: prod.splits bool.splits)

lemma post_stops_answer_online:
  assumes "redis s = Some r" "online r" "run \<noteq> []" "stop \<noteq> []"
  shows "post_stops_answer scrypt uuid_in now s \<lparr>runId = Some run, stopId = Some stop, answer = ans\<rparr>
    = (let s1 = s\<lparr>redis := Some (r\<lparr>keyspace := (keyspace r)(rl_key run stop \<mapsto>
          \<lparr>val = redis_count now r (rl_key run stop) + 1,
           expires_at = (if redis_count now r (rl_key run stop) + 1 = 1 then Some (now + 30)
                         else redis_expiry now r (rl_key run stop))\<rparr>)\<rparr>)\<rparr>
       in if 25 < redis_count now r (rl_key run stop) + 1
          then ((429, Error ''Te veel pogingen''), s1)
          else check_answer scrypt uuid_in now run stop ans s1)"
  unfolding post_stops_answer_ids [OF assms(3,4)] rate_limit_online [OF assms(1,2)]
  by (simp add: Let_def)

lemma submit_all_in_window:
  assumes "redis s = Some r" "online r" "run \<noteq> []" "stop \<noteq> []"
    and "keyspace r (rl_key run stop) = Some \<lparr>val = c, expires_at = Some e\<rparr>"
    and "1 \<le> c" and "\<forall>x\<in>set subs. fst x < e"
  shows "\<exists>replies s' r'. submit_all scrypt uuid_in run stop s subs = (replies, s') \<and>
          map (\<lambda>reply. reply = (429, Error ''Te veel pogingen'')) replies
            = map (\<lambda>i. 25 < c + 1 + int i) [0..<length subs] \<and>
          map (\<lambda>reply. fst reply = 429) replies
            = map (\<lambda>i. 25 < c + 1 + int i) [0..<length subs] \<and>
          redis s' = Some r' \<and> online r' \<and>
          keyspace r' (rl_key run stop)
            = Some \<lparr>val = c + int (length subs), expires_at = Some e\<rparr>"
  using assms
proof (induction subs arbitrary: s r c)
  case Nil
  then show ?case by simp
next
  case (Cons sub subs)
  obtain t ans where sub: "sub = (t, ans)" by (cases sub)
  let ?k = "rl_key run stop"
  let ?req = "\<lparr>runId = Some run, stopId = Some stop, answer = ans\<rparr>"
  from Cons.prems sub have t: "t < e" by simp
  have cnt: "redis_count t r ?k = c" and ex: "redis_expiry t r ?k = Some e"
    using Cons.prems(5) t by (simp_all add: redis_count_def redis_expiry_def redis_get_def)
  define r1 where "r1 = r\<lparr>keyspace := (keyspace r)(?k \<mapsto> \<lparr>val = c + 1, expires_at = Some e\<rparr>)\<rparr>"
  define s1 where "s1 = s\<lparr>redis := Some r1\<rparr>"
  have step: "post_stops_answer scrypt uuid_in t s ?req
      = (if 25 < c + 1 then ((429, Error ''Te veel pogingen''), s1)
         else check_answer scrypt uuid_in t run stop ans s1)"
    using post_stops_answer_online [OF Cons.prems(1,2,3,4), of scrypt uuid_in t ans] Cons.prems(6)
    by (simp add: cnt ex r1_def s1_def)
  obtain reply s2 where rs: "post_stops_answer scrypt uuid_in t s ?req = (reply, s2)"
    by (cases "post_stops_answer scrypt uuid_in t s ?req")
  have res: "(reply, s2) = (if 25 < c + 1 then ((429, Error ''Te veel pogingen''), s1)
         else check_answer scrypt uuid_in t run stop ans s1)"
    unfolding step [symmetric] rs ..
  have reply: "reply = (429, Error ''Te veel pogingen'') \<longleftrightarrow> 25 < c + 1"
      "fst reply = 429 \<longleftrightarrow> 25 < c + 1"
    using res check_answer_not_429 [of scrypt uuid_in t run stop ans s1]
    by (cases "25 < c + 1"; cases "check_answer scrypt uuid_in t run stop ans s1"; auto)+
  have "redis s2 = redis s1"
    using res check_answer_redis [of scrypt uuid_in t run stop ans s1]
    by (cases "25 < c + 1"; cases "check_answer scrypt uuid_in t run stop ans s1"; auto)
  then have p1: "redis s2 = Some r1" by (simp add: s1_def)
  have p2: "online r1" using Cons.prems(2) by (simp add: r1_def)
  have p3: "keyspace r1 ?k = Some \<lparr>val = c + 1, expires_at = Some e\<rparr>" by (simp add: r1_def)
  have p4: "1 \<le> c + 1" using Cons.prems(6) by simp
  have p5: "\<forall>x\<in>set subs. fst x < e" using Cons.prems(7) by simp
  obtain replies s' r' where IH:
      "submit_all scrypt uuid_in run stop s2 subs = (replies, s')"
      "map (\<lambda>reply. reply = (429, Error ''Te veel pogingen'')) replies
            = map (\<lambda>i. 25 < c + 1 + 1 + int i) [0..<length subs]"
      "map (\<lambda>reply. fst reply = 429) replies
            = map (\<lambda>i. 25 < c + 1 + 1 + int i) [0..<length subs]"
      "redis s' = Some r'" "online r'"
      "keyspace r' ?k = Some \<lparr>val = c + 1 + int (length subs), expires_at = Some e\<rparr>"
    using Cons.IH [OF p1 p2 Cons.prems(3,4) p3 p4 p5] by blast
  have m: "map (\<lambda>i. 25 < c + 1 + int i) [0..<Suc (length subs)]
      = (25 < c + 1) # map (\<lambda>i. 25 < c + 1 + 1 + int i) [0..<length subs]"
    by (subst map_upt_Suc) (simp add: algebra_simps)
  have all: "submit_all scrypt uuid_in run stop s (sub # subs) = (reply # replies, s')"
    by (simp add: sub rs IH(1))
  have len: "c + int (length (sub # subs)) = c + 1 + int (length subs)" by simp
  have l2: "length (sub # subs) = Suc (length subs)" by simp
  show ?case
    unfolding all len l2 m
    using reply IH(2-6) by (intro exI [of _ "reply # replies"] exI [of _ s'] exI [of _ r']) simp
qed

text \<open>
  Claim C3.  Redis is reachable and the key of (run, stop) holds no live counter at time
  \<open>t0\<close>.  Of the submissions at \<open>t0\<close> and then at times before \<open>t0 + 30\<close>, exactly
  the first 25 are not answered 429, and the 26th and every later one is answered 429
  with the message of the throttle.  Afterwards the counter holds the number of
  submissions and still lapses at \<open>t0 + 30\<close>; a submission at or after that time is
  not answered 429 and leaves the counter at 1 with expiry 30 seconds later.  For any
  single submission, the counter grows by one, and its expiry is set to 30 seconds ahead
  exactly when the new count is 1 and is left alone otherwise.
\<close>

theorem rate_limit_window:
  assumes s: "redis s = Some r" and on: "online r"
    and ids: "run \<noteq> []" "stop \<noteq> []"
    and fresh: "redis_get t0 r (rl_key run stop) = None"
    and window: "\<forall>x\<in>set rest. fst x < t0 + 30"
  shows
   "(\<exists>replies s' r'.
       submit_all scrypt uuid_in run stop s ((t0, ans0) # rest) = (replies, s') \<and>
       map (\<lambda>reply. fst reply = 429) replies = map (\<lambda>i. 25 \<le> i) [0..<Suc (length rest)] \<and>
       map (\<lambda>reply. reply = (429, Error ''Te veel pogingen'')) replies
         = map (\<lambda>i. 25 \<le> i) [0..<Suc (length rest)] \<and>
       redis s' = Some r' \<and>
       keyspace r' (rl_key run stop)
         = Some \<lparr>val = 1 + int (length rest), expires_at = Some (t0 + 30)\<rparr> \<and>
       (\<forall>t ans. t0 + 30 \<le> t \<longrightarrow>
          (\<exists>reply s'' r''.
             post_stops_answer scrypt uuid_in t s'
               \<lparr>runId = Some run, stopId = Some stop, answer = ans\<rparr> = (reply, s'') \<and>
             fst reply \<noteq> 429 \<and> redis s'' = Some r'' \<and>
             keyspace r'' (rl_key run stop) = Some \<lparr>val = 1, expires_at = Some (t + 30)\<rparr>))) \<and>
    (\<forall>s1 r1 now. redis s1 = Some r1 \<and> online r1 \<longrightarrow>
       (\<exists>r2. rate_limit now run stop s1
                = (25 < redis_count now r1 (rl_key run stop) + 1, s1\<lparr>redis := Some r2\<rparr>) \<and>
              redis_count now r2 (rl_key run stop) = redis_count now r1 (rl_key run stop) + 1 \<and>
              redis_expiry now r2 (rl_key run stop)
                = (if redis_count now r1 (rl_key run stop) + 1 = 1 then Some (now + 30)
                   else redis_expiry now r1 (rl_key run stop))))"
proof -
  let ?k = "rl_key run stop"
  let ?req = "\<lambda>ans. \<lparr>runId = Some run, stopId = Some stop, answer = ans\<rparr>"
  define r1 where "r1 = r\<lparr>keyspace := (keyspace r)(?k \<mapsto> \<lparr>val = 1, expires_at = Some (t0 + 30)\<rparr>)\<rparr>"
  define s1 where "s1 = s\<lparr>redis := Some r1\<rparr>"
  have first: "post_stops_answer scrypt uuid_in t0 s (?req ans0)
      = check_answer scrypt uuid_in t0 run stop ans0 s1"
    using post_stops_answer_online [OF s on ids, of scrypt uuid_in t0 ans0] fresh
    by (simp add: redis_count_def redis_expiry_def r1_def s1_def)
  obtain reply s2 where rs: "post_stops_answer scrypt uuid_in t0 s (?req ans0) = (reply, s2)"
    by (cases "post_stops_answer scrypt uuid_in t0 s (?req ans0)")
  have ca: "check_answer scrypt uuid_in t0 run stop ans0 s1 = (reply, s2)"
    unfolding first [symmetric] by (rule rs)
  have reply: "fst reply \<noteq> 429"
    using check_answer_not_429 [of scrypt uuid_in t0 run stop ans0 s1] unfolding ca by simp
  then have reply': "reply \<noteq> (429, Error ''Te veel pogingen'')" by auto
  have "redis s2 = redis s1"
    using check_answer_redis [of scrypt uuid_in t0 run stop ans0 s1] unfolding ca by simp
  then have p1: "redis s2 = Some r1" by (simp add: s1_def)
  have p2: "online r1" using on by (simp add: r1_def)
  have p3: "keyspace r1 ?k = Some \<lparr>val = 1, expires_at = Some (t0 + 30)\<rparr>" by (simp add: r1_def)
  obtain replies s' r' where W:
      "submit_all scrypt uuid_in run stop s2 rest = (replies, s')"
      "map (\<lambda>reply. reply = (429, Error ''Te veel pogingen'')) replies
            = map (\<lambda>i. 25 < 1 + 1 + int i) [0..<length rest]"
      "map (\<lambda>reply. fst reply = 429) replies
            = map (\<lambda>i. 25 < 1 + 1 + int i) [0..<length rest]"
      "redis s' = Some r'" "online r'"
      "keyspace r' ?k = Some \<lparr>val = 1 + int (length rest), expires_at = Some (t0 + 30)\<rparr>"
    using submit_all_in_window [OF p1 p2 ids p3 _ window, of scrypt uuid_in] by auto
  have all: "submit_all scrypt uuid_in run stop s ((t0, ans0) # rest) = (reply # replies, s')"
    by (simp add: rs W(1))
  have m: "map (\<lambda>i. 25 \<le> i) [0..<Suc (length rest)]
      = False # map (\<lambda>i. 25 < 1 + 1 + int i) [0..<length rest]"
    by (subst map_upt_Suc) auto
  have reset: "\<exists>reply s'' r''.
             post_stops_answer scrypt uuid_in t s' (?req ans) = (reply, s'') \<and>
             fst reply \<noteq> 429 \<and> redis s'' = Some r'' \<and>
             keyspace r'' ?k = Some \<lparr>val = 1, expires_at = Some (t + 30)\<rparr>"
    if "t0 + 30 \<le> t" for t ans
  proof -
    define r3 where "r3 = r'\<lparr>keyspace := (keyspace r')(?k \<mapsto> \<lparr>val = 1, expires_at = Some (t + 30)\<rparr>)\<rparr>"
    have "redis_get t r' ?k = None" using W(6) that by (simp add: redis_get_def)
    then have eq: "post_stops_answer scrypt uuid_in t s' (?req ans)
        = check_answer scrypt uuid_in t run stop ans (s'\<lparr>redis := Some r3\<rparr>)"
      using post_stops_answer_online [OF W(4,5) ids, of scrypt uuid_in t ans]
      by (simp add: redis_count_def redis_expiry_def r3_def)
    obtain rep s'' where rs': "post_stops_answer scrypt uuid_in t s' (?req ans) = (rep, s'')"
      by (cases "post_stops_answer scrypt uuid_in t s' (?req ans)")
    have ca': "check_answer scrypt uuid_in t run stop ans (s'\<lparr>redis := Some r3\<rparr>) = (rep, s'')"
      unfolding eq [symmetric] by (rule rs')
    have "fst rep \<noteq> 429"
      using check_answer_not_429 [of scrypt uuid_in t run stop ans "s'\<lparr>redis := Some r3\<rparr>"]
      unfolding ca' by simp
    moreover have "redis s'' = Some r3"
      using check_answer_redis [of scrypt uuid_in t run stop ans "s'\<lparr>redis := Some r3\<rparr>"]
      unfolding ca' by simp
    moreover have "keyspace r3 ?k = Some \<lparr>val = 1, expires_at = Some (t + 30)\<rparr>"
      by (simp add: r3_def)
    ultimately show ?thesis using rs' by blast
  qed
  have C: "\<exists>r2. rate_limit now run stop s1
                = (25 < redis_count now r1 ?k + 1, s1\<lparr>redis := Some r2\<rparr>) \<and>
              redis_count now r2 ?k = redis_count now r1 ?k + 1 \<and>
              redis_expiry now r2 ?k
                = (if redis_count now r1 ?k + 1 = 1 then Some (now + 30)
                   else redis_expiry now r1 ?k)"
    if "redis s1 = Some r1 \<and> online r1" for s1 r1 now
  proof -
    from that have a: "redis s1 = Some r1" and b: "online r1" by simp_all
    have live: "redis_expiry now r1 ?k = Some t \<Longrightarrow> now < t" for t
      by (auto simp: redis_expiry_def redis_get_def split: option.splits if_splits)
    show ?thesis
      apply (subst rate_limit_online [OF a b])
      apply (intro exI conjI)
        apply (rule refl)
       apply (auto simp add: redis_count_upd_same redis_expiry_upd_same
          split: option.splits dest: live)
      done
  qed
  have B: "\<exists>replies s' r'.
       submit_all scrypt uuid_in run stop s ((t0, ans0) # rest) = (replies, s') \<and>
       map (\<lambda>reply. fst reply = 429) replies = map (\<lambda>i. 25 \<le> i) [0..<Suc (length rest)] \<and>
       map (\<lambda>reply. reply = (429, Error ''Te veel pogingen'')) replies
         = map (\<lambda>i. 25 \<le> i) [0..<Suc (length rest)] \<and>
       redis s' = Some r' \<and>
       keyspace r' ?k = Some \<lparr>val = 1 + int (length rest), expires_at = Some (t0 + 30)\<rparr> \<and>
       (\<forall>t ans. t0 + 30 \<le> t \<longrightarrow>
          (\<exists>reply s'' r''.
             post_stops_answer scrypt uuid_in t s' (?req ans) = (reply, s'') \<and>
             fst reply \<noteq> 429 \<and> redis s'' = Some r'' \<and>
             keyspace r'' ?k = Some \<lparr>val = 1, expires_at = Some (t + 30)\<rparr>))"
    unfolding all m
    using reply reply' W(2-4,6) reset
    by (intro exI [of _ "reply # replies"] exI [of _ s'] exI [of _ r']) simp
  show ?thesis using B C by blast
qed

theorem rate_limit_window_witness:
  "redis (example_server (Some \<lparr>online = True, keyspace = Map.empty\<rparr>))
     = Some \<lparr>online = True, keyspace = Map.empty\<rparr> \<and>
   online \<lparr>online = True, keyspace = Map.empty\<rparr> \<and>
   ''run-1'' \<noteq> [] \<and> ''stop-waag'' \<noteq> [] \<and>
   redis_get 100 \<lparr>online = True, keyspace = Map.empty\<rparr> (rl_key ''run-1'' ''stop-waag'') = None \<and>
   list_all (\<lambda>x. fst x < 100 + 30) (replicate 25 (100::nat, Some ''de brink'')) \<and>
   (\<exists>replies s'.
      submit_all example_scrypt example_uuid_in ''run-1'' ''stop-waag''
        (example_server (Some \<lparr>online = True, keyspace = Map.empty\<rparr>))
        ((100, Some ''de brink'') # replicate 25 (100, Some ''de brink'')) = (replies, s') \<and>
      map (\<lambda>reply. fst reply = 429) replies = replicate 25 False @ [True])"
proof -
  let ?r = "\<lparr>online = True, keyspace = Map.empty\<rparr>"
  let ?rest = "replicate 25 (100::nat, Some ''de brink'')"
  have h1: "redis (example_server (Some ?r)) = Some ?r" by (simp add: example_server_def)
  have h2: "online ?r" by simp
  have h3: "''run-1'' \<noteq> []" and h4: "''stop-waag'' \<noteq> []" by simp_all
  have h5: "redis_get 100 ?r (rl_key ''run-1'' ''stop-waag'') = None"
    by (simp add: redis_get_def)
  have h6: "\<forall>x\<in>set ?rest. fst x < 100 + 30" by simp
  have m: "map (\<lambda>i. 25 \<le> i) [0..<Suc (length ?rest)] = replicate 25 False @ [True]"
    by code_simp
  from rate_limit_window [OF h1 h2 h3 h4 h5 h6, of example_scrypt example_uuid_in "Some ''de brink''"]
  obtain replies s' where
    "submit_all example_scrypt example_uuid_in ''run-1'' ''stop-waag'' (example_server (Some ?r))
        ((100, Some ''de brink'') # ?rest) = (replies, s')"
    "map (\<lambda>reply. fst reply = 429) replies = map (\<lambda>i. 25 \<le> i) [0..<Suc (length ?rest)]"
    by blast
  then have "\<exists>replies s'.
      submit_all example_scrypt example_uuid_in ''run-1'' ''stop-waag'' (example_server (Some ?r))
        ((100, Some ''de brink'') # ?rest) = (replies, s') \<and>
      map (\<lambda>reply. fst reply = 429) replies = replicate 25 False @ [True]"
    unfolding m by blast
  moreover have "list_all (\<lambda>x. fst x < 100 + 30) ?rest" using h6 by (simp only: list_all_iff)
  ultimately show ?thesis using h1 h2 h3 h4 h5 by blast
qed

lemma rate_limit_absent: "redis s = None \<Longrightarrow> rate_limit now run stop s = (False, s)"
  by (simp add: rate_limit_def)

lemma rate_limit_incr_raises:
  "redis s = Some r \<Longrightarrow> redis_incr now r (rl_key run stop) = Inl e \<Longrightarrow>
   rate_limit now run stop s = (False, s\<lparr>logged := logged s @ [RateLimitSkip]\<rparr>)"
  by (simp add: rate_limit_def)

lemma check_answer_reply_logged:
  "fst (check_answer scrypt uuid_in now run stop ans (s\<lparr>logged := l\<rparr>))
     = fst (check_answer scrypt uuid_in now run stop ans s)"
  by (simp add: check_answer_def internal_error_def split: sum.splits option.splits)

lemma example_normalize: "normalizeAnswer (Some ''De Waag'') = ''de waag''"
  by code_simp

text \<open>
  Claim C4.  Without a Redis client the rate-limit block lets the submission pass and
  changes nothing; the route then is the lookup and verification alone.  When \<^verbatim>\<open>INCR\<close>
  raises, the block lets the submission pass and logs the warning; the route goes on to
  lookup and verification, and its reply is the one it would give with no throttle at
  all.  Lookup and verification never answer 429.  A server that starts without a client
  has logged that rate limiting is off.
\<close>

theorem rate_limit_fail_open:
  "(redis s = None \<longrightarrow>
      rate_limit now run stop s = (False, s) \<and>
      (run \<noteq> [] \<and> stop \<noteq> [] \<longrightarrow>
         post_stops_answer scrypt uuid_in now s
             \<lparr>runId = Some run, stopId = Some stop, answer = ans\<rparr>
           = check_answer scrypt uuid_in now run stop ans s)) \<and>
   (\<forall>r e. redis s = Some r \<and> redis_incr now r (rl_key run stop) = Inl e \<longrightarrow>
      rate_limit now run stop s = (False, s\<lparr>logged := logged s @ [RateLimitSkip]\<rparr>) \<and>
      (run \<noteq> [] \<and> stop \<noteq> [] \<longrightarrow>
         post_stops_answer scrypt uuid_in now s
             \<lparr>runId = Some run, stopId = Some stop, answer = ans\<rparr>
           = check_answer scrypt uuid_in now run stop ans
               (s\<lparr>logged := logged s @ [RateLimitSkip]\<rparr>) \<and>
         fst (post_stops_answer scrypt uuid_in now s
             \<lparr>runId = Some run, stopId = Some stop, answer = ans\<rparr>)
           = fst (check_answer scrypt uuid_in now run stop ans s))) \<and>
   fst (fst (check_answer scrypt uuid_in now run stop ans s)) \<noteq> 429 \<and>
   (fst (init_redis url remote) = None \<longrightarrow> snd (init_redis url remote) = [RateLimitingOff])"
proof (intro conjI impI allI)
  show "rate_limit now run stop s = (False, s)" if "redis s = None"
    using that by (rule rate_limit_absent)
  show "post_stops_answer scrypt uuid_in now s
             \<lparr>runId = Some run, stopId = Some stop, answer = ans\<rparr>
           = check_answer scrypt uuid_in now run stop ans s"
    if "redis s = None" "run \<noteq> [] \<and> stop \<noteq> []"
    using that by (simp add: post_stops_answer_ids rate_limit_absent)
  show "rate_limit now run stop s = (False, s\<lparr>logged := logged s @ [RateLimitSkip]\<rparr>)"
    if "redis s = Some r \<and> redis_incr now r (rl_key run stop) = Inl e" for r e
    using that by (simp add: rate_limit_incr_raises)
  show p: "post_stops_answer scrypt uuid_in now s
             \<lparr>runId = Some run, stopId = Some stop, answer = ans\<rparr>
           = check_answer scrypt uuid_in now run stop ans
               (s\<lparr>logged := logged s @ [RateLimitSkip]\<rparr>)"
    if "redis s = Some r \<and> redis_incr now r (rl_key run stop) = Inl e"
      "run \<noteq> [] \<and> stop \<noteq> []" for r e
    using that by (simp add: post_stops_answer_ids rate_limit_incr_raises)
  show "fst (post_stops_answer scrypt uuid_in now s
             \<lparr>runId = Some run, stopId = Some stop, answer = ans\<rparr>)
           = fst (check_answer scrypt uuid_in now run stop ans s)"
    if "redis s = Some r \<and> redis_incr now r (rl_key run stop) = Inl e"
      "run \<noteq> [] \<and> stop \<noteq> []" for r e
    unfolding p [OF that] by (rule check_answer_reply_logged)
  show "fst (fst (check_answer scrypt uuid_in now run stop ans s)) \<noteq> 429"
    by (rule check_answer_not_429)
  show "snd (init_redis url remote) = [RateLimitingOff]" if "fst (init_redis url remote) = None"
    using that by (simp add: init_redis_def split: if_splits)
qed

theorem rate_limit_fail_open_witness:
  "rate_limit 100 ''run-1'' ''stop-waag'' (example_server None) = (False, example_server None) \<and>
   redis_incr 100 \<lparr>online = False, keyspace = Map.empty\<rparr> (rl_key ''run-1'' ''stop-waag'')
     = Inl RedisError \<and>
   rate_limit 100 ''run-1'' ''stop-waag''
       (example_server (Some \<lparr>online = False, keyspace = Map.empty\<rparr>))
     = (False, (example_server (Some \<lparr>online = False, keyspace = Map.empty\<rparr>))
                 \<lparr>logged := [RateLimitSkip]\<rparr>) \<and>
   fst (post_stops_answer example_scrypt example_uuid_in 100
          (example_server (Some \<lparr>online = False, keyspace = Map.empty\<rparr>))
          \<lparr>runId = Some ''run-1'', stopId = Some ''stop-waag'', answer = Some ''De Waag''\<rparr>)
     = (200, Correct True) \<and>
   init_redis None \<lparr>online = True, keyspace = Map.empty\<rparr> = (None, [RateLimitingOff])"
proof -
  let ?off = "\<lparr>online = False, keyspace = Map.empty\<rparr>"
  let ?req = "\<lparr>runId = Some ''run-1'', stopId = Some ''stop-waag'', answer = Some ''De Waag''\<rparr>"
  have a: "redis (example_server None) = None" by (simp add: example_server_def)
  have b: "redis (example_server (Some ?off)) = Some ?off" by (simp add: example_server_def)
  have c: "redis_incr 100 ?off (rl_key ''run-1'' ''stop-waag'') = Inl RedisError"
    by (simp add: redis_incr_def)
  have d: "''run-1'' \<noteq> [] \<and> ''stop-waag'' \<noteq> []" by simp
  have e: "fst (init_redis None \<lparr>online = True, keyspace = Map.empty\<rparr>) = None"
    by (simp add: init_redis_def)
  have f: "logged (example_server (Some ?off)) = []" by (simp add: example_server_def)
  have g: "fst (check_answer example_scrypt example_uuid_in 100 ''run-1'' ''stop-waag''
      (Some ''De Waag'') (example_server (Some ?off))) = (200, Correct True)"
    by (simp add: check_answer_def query_answer_hash_def example_uuid_in_def example_server_def
        example_db_def verifyAnswer_def example_normalize query_upsert_solved_def)
  from rate_limit_fail_open [of "example_server None" 100 "''run-1''" "''stop-waag''"] a
  have 1: "rate_limit 100 ''run-1'' ''stop-waag'' (example_server None)
      = (False, example_server None)" by blast
  from rate_limit_fail_open [of "example_server (Some ?off)" 100 "''run-1''" "''stop-waag''"
      example_scrypt example_uuid_in "Some ''De Waag''"] b c d
  have 2: "rate_limit 100 ''run-1'' ''stop-waag'' (example_server (Some ?off))
      = (False, (example_server (Some ?off))\<lparr>logged := logged (example_server (Some ?off))
           @ [RateLimitSkip]\<rparr>)"
    and 3: "fst (post_stops_answer example_scrypt example_uuid_in 100
          (example_server (Some ?off)) ?req)
      = fst (check_answer example_scrypt example_uuid_in 100 ''run-1'' ''stop-waag''
      (Some ''De Waag'') (example_server (Some ?off)))"
    by blast+
  from rate_limit_fail_open [of _ _ _ _ _ _ _ None "\<lparr>online = True, keyspace = Map.empty\<rparr>"] e
  have 4: "snd (init_redis None \<lparr>online = True, keyspace = Map.empty\<rparr>) = [RateLimitingOff]"
    by blast
  from 4 e have 5: "init_redis None \<lparr>online = True, keyspace = Map.empty\<rparr>
      = (None, [RateLimitingOff])"
    by (cases "init_redis None \<lparr>online = True, keyspace = Map.empty\<rparr>") simp
  show ?thesis using 1 2 3 5 c f g by simp
qed

lemma rate_limit_db: "db (snd (rate_limit now run stop s)) = db s"
  by (auto simp: rate_limit_def redis_incr_def redis_expire_def Let_def
      split: option.splits sum.splits if_splits prod.splits)

lemma check_answer_unknown_stop:
  "query_answer_hash uuid_in (db s) stop = Inr None \<Longrightarrow>
   check_answer scrypt uuid_in now run stop ans s = ((404, Error ''Stop niet gevonden''), s)"
  by (simp add: check_answer_def)

text \<open>
  Claim C10.  The throttle runs before the stop is looked up.  A submission that names a
  run and a stop, for a stop that has no row, goes through the whole rate-limit block:
  it is answered 429 when the block says so and 404 otherwise, and the server is left as
  the block leaves it.  With Redis reachable this means that the counter of its key grows
  by one, and that the reply is 429 when the new count exceeds 25 and 404 otherwise.
  Such a submission answered 429 exists: the example server with the counter at 25.
\<close>

theorem throttle_before_stop_lookup:
  "(run \<noteq> [] \<and> stop \<noteq> [] \<and> query_answer_hash uuid_in (db s) stop = Inr None \<longrightarrow>
      post_stops_answer scrypt uuid_in now s
          \<lparr>runId = Some run, stopId = Some stop, answer = ans\<rparr>
        = ((if fst (rate_limit now run stop s) then (429, Error ''Te veel pogingen'')
            else (404, Error ''Stop niet gevonden'')),
           snd (rate_limit now run stop s))) \<and>
   (redis s = Some r \<and> online r \<and> run \<noteq> [] \<and> stop \<noteq> [] \<and>
    query_answer_hash uuid_in (db s) stop = Inr None \<longrightarrow>
      (\<exists>r'. post_stops_answer scrypt uuid_in now s
                  \<lparr>runId = Some run, stopId = Some stop, answer = ans\<rparr>
             = ((if 25 < redis_count now r (rl_key run stop) + 1
                 then (429, Error ''Te veel pogingen'')
                 else (404, Error ''Stop niet gevonden'')),
                s\<lparr>redis := Some r'\<rparr>) \<and>
           redis_count now r' (rl_key run stop) = redis_count now r (rl_key run stop) + 1)) \<and>
   query_answer_hash example_uuid_in
      (db (example_server (Some \<lparr>online = True,
             keyspace = [rl_key ''run-1'' ''stop-9'' \<mapsto> \<lparr>val = 25, expires_at = Some 120\<rparr>]\<rparr>)))
      ''stop-9'' = Inr None \<and>
   fst (post_stops_answer example_scrypt example_uuid_in 100
      (example_server (Some \<lparr>online = True,
             keyspace = [rl_key ''run-1'' ''stop-9'' \<mapsto> \<lparr>val = 25, expires_at = Some 120\<rparr>]\<rparr>))
      \<lparr>runId = Some ''run-1'', stopId = Some ''stop-9'', answer = Some ''De Waag''\<rparr>)
     = (429, Error ''Te veel pogingen'')"
proof (intro conjI impI)
  assume a: "run \<noteq> [] \<and> stop \<noteq> [] \<and> query_answer_hash uuid_in (db s) stop = Inr None"
  obtain limited s1 where rl: "rate_limit now run stop s = (limited, s1)"
    by (cases "rate_limit now run stop s")
  have "db s1 = db s" using rate_limit_db [of now run stop s] by (simp add: rl)
  then have "query_answer_hash uuid_in (db s1) stop = Inr None" using a by simp
  then have "check_answer scrypt uuid_in now run stop ans s1
      = ((404, Error ''Stop niet gevonden''), s1)"
    by (rule check_answer_unknown_stop)
  then show "post_stops_answer scrypt uuid_in now s
          \<lparr>runId = Some run, stopId = Some stop, answer = ans\<rparr>
        = ((if fst (rate_limit now run stop s) then (429, Error ''Te veel pogingen'')
            else (404, Error ''Stop niet gevonden'')),
           snd (rate_limit now run stop s))"
    using a by (cases limited) (simp_all add: post_stops_answer_ids rl)
next
  assume a: "redis s = Some r \<and> online r \<and> run \<noteq> [] \<and> stop \<noteq> [] \<and>
    query_answer_hash uuid_in (db s) stop = Inr None"
  let ?k = "rl_key run stop"
  define r' where "r' = r\<lparr>keyspace := (keyspace r)(?k \<mapsto>
          \<lparr>val = redis_count now r ?k + 1,
           expires_at = (if redis_count now r ?k + 1 = 1 then Some (now + 30)
                         else redis_expiry now r ?k)\<rparr>)\<rparr>"
  have live: "redis_expiry now r ?k = Some t \<Longrightarrow> now < t" for t
    by (auto simp: redis_expiry_def redis_get_def split: option.splits if_splits)
  have cnt: "redis_count now r' ?k = redis_count now r ?k + 1"
    by (auto simp add: r'_def redis_count_upd_same split: option.splits dest: live)
  have "query_answer_hash uuid_in (db (s\<lparr>redis := Some r'\<rparr>)) stop = Inr None"
    using a by simp
  then have "check_answer scrypt uuid_in now run stop ans (s\<lparr>redis := Some r'\<rparr>)
      = ((404, Error ''Stop niet gevonden''), s\<lparr>redis := Some r'\<rparr>)"
    by (rule check_answer_unknown_stop)
  then have "post_stops_answer scrypt uuid_in now s
                  \<lparr>runId = Some run, stopId = Some stop, answer = ans\<rparr>
             = ((if 25 < redis_count now r ?k + 1
                 then (429, Error ''Te veel pogingen'')
                 else (404, Error ''Stop niet gevonden'')),
                s\<lparr>redis := Some r'\<rparr>)"
    using a post_stops_answer_online [of s r run stop scrypt uuid_in now ans]
    by (simp add: r'_def Let_def)
  with cnt show "\<exists>r'. post_stops_answer scrypt uuid_in now s
                  \<lparr>runId = Some run, stopId = Some stop, answer = ans\<rparr>
             = ((if 25 < redis_count now r (rl_key run stop) + 1
                 then (429, Error ''Te veel pogingen'')
                 else (404, Error ''Stop niet gevonden'')),
                s\<lparr>redis := Some r'\<rparr>) \<and>
           redis_count now r' (rl_key run stop) = redis_count now r (rl_key run stop) + 1"
    by blast
next
  let ?r = "\<lparr>online = True,
             keyspace = [rl_key ''run-1'' ''stop-9'' \<mapsto> \<lparr>val = 25, expires_at = Some 120\<rparr>]\<rparr>"
  show "query_answer_hash example_uuid_in (db (example_server (Some ?r))) ''stop-9'' = Inr None"
    by (simp add: query_answer_hash_def example_uuid_in_def example_server_def example_db_def)
  have "redis_count 100 ?r (rl_key ''run-1'' ''stop-9'') = 25"
    by (simp add: redis_count_def redis_get_def)
  then show "fst (post_stops_answer example_scrypt example_uuid_in 100 (example_server (Some ?r))
      \<lparr>runId = Some ''run-1'', stopId = Some ''stop-9'', answer = Some ''De Waag''\<rparr>)
     = (429, Error ''Te veel pogingen'')"
    using post_stops_answer_online [of "example_server (Some ?r)" ?r "''run-1''" "''stop-9''"
        example_scrypt example_uuid_in 100 "Some ''De Waag''"]
    by (simp add: example_server_def Let_def)
qed

theorem throttle_before_stop_lookup_witness:
  "redis (example_server (Some \<lparr>online = True, keyspace = Map.empty\<rparr>))
     = Some \<lparr>online = True, keyspace = Map.empty\<rparr> \<and>
   query_answer_hash example_uuid_in
     (db (example_server (Some \<lparr>online = True, keyspace = Map.empty\<rparr>))) ''stop-9'' = Inr None \<and>
   (\<exists>r'. post_stops_answer example_scrypt example_uuid_in 100
             (example_server (Some \<lparr>online = True, keyspace = Map.empty\<rparr>))
             \<lparr>runId = Some ''run-1'', stopId = Some ''stop-9'', answer = Some ''De Waag''\<rparr>
           = ((404, Error ''Stop niet gevonden''),
              (example_server (Some \<lparr>online = True, keyspace = Map.empty\<rparr>))\<lparr>redis := Some r'\<rparr>) \<and>
          redis_count 100 r' (rl_key ''run-1'' ''stop-9'') = 1)"
proof -
  let ?r = "\<lparr>online = True, keyspace = Map.empty\<rparr>"
  have a: "redis (example_server (Some ?r)) = Some ?r" by (simp add: example_server_def)
  have b: "online ?r \<and> ''run-1'' \<noteq> [] \<and> ''stop-9'' \<noteq> []" by simp
  have c: "query_answer_hash example_uuid_in (db (example_server (Some ?r))) ''stop-9'' = Inr None"
    by (simp add: query_answer_hash_def example_uuid_in_def example_server_def example_db_def)
  have d: "redis_count 100 ?r (rl_key ''run-1'' ''stop-9'') = 0"
    by (simp add: redis_count_def redis_get_def)
  from throttle_before_stop_lookup [where s = "example_server (Some ?r)" and r = ?r
      and run = "''run-1''" and stop = "''stop-9''" and uuid_in = example_uuid_in
      and scrypt = example_scrypt and now = 100 and ans = "Some ''De Waag''"] a b c
  have "\<exists>r'. post_stops_answer example_scrypt example_uuid_in 100 (example_server (Some ?r))
             \<lparr>runId = Some ''run-1'', stopId = Some ''stop-9'', answer = Some ''De Waag''\<rparr>
           = ((if 25 < redis_count 100 ?r (rl_key ''run-1'' ''stop-9'') + 1
                 then (429, Error ''Te veel pogingen'')
                 else (404, Error ''Stop niet gevonden'')),
              (example_server (Some ?r))\<lparr>redis := Some r'\<rparr>) \<and>
          redis_count 100 r' (rl_key ''run-1'' ''stop-9'')
            = redis_count 100 ?r (rl_key ''run-1'' ''stop-9'') + 1"
    by blast
  then show ?thesis using a c unfolding d by simp
qed

section \<open>A run that does not exist\<close>

text \<open>
  Claim C1 as stated fails.  On the example server the stop exists, no run has the
  identifier \<^verbatim>\<open>run-9\<close>, and the right answer is reported as correct with status 200
  while the server, its progress table included, stays as it was.
\<close>

theorem unknown_run_reports_success:
  "query_answer_hash example_uuid_in (db (example_server None)) ''stop-waag''
     = Inr (Some ''plain:de waag'') \<and>
   example_uuid_in ''run-9'' = Some 9 \<and>
   runs (db (example_server None)) 9 = None \<and>
   post_stops_answer example_scrypt example_uuid_in 100 (example_server None)
       \<lparr>runId = Some ''run-9'', stopId = Some ''stop-waag'', answer = Some ''De Waag''\<rparr>
     = ((200, Correct True), example_server None)"
  by (simp add: query_answer_hash_def example_uuid_in_def example_server_def example_db_def
      post_stops_answer_def rate_limit_def check_answer_def verifyAnswer_def
      example_normalize query_upsert_solved_def upsert_solved_def)

text \<open>
  Claim C1, amended.  For a submission with an existing stop and a well-formed run
  identifier that matches no row of \<^verbatim>\<open>runs\<close>, the route never answers 404: it answers
  429 when throttled, and otherwise 200 with the outcome of verification (500 when
  verification throws), as it would for an existing run.  The database is left
  unchanged.
\<close>

theorem unknown_run_not_signalled:
  assumes "run \<noteq> []" "stop \<noteq> []"
    and "query_answer_hash uuid_in (db s) stop = Inr (Some answer_hash)"
    and "uuid_in run = Some run_id" "runs (db s) run_id = None"
  shows "\<exists>limited s1.
     rate_limit now run stop s = (limited, s1) \<and>
     post_stops_answer scrypt uuid_in now s
         \<lparr>runId = Some run, stopId = Some stop, answer = ans\<rparr>
       = (if limited then ((429, Error ''Te veel pogingen''), s1)
          else case verifyAnswer scrypt (Some answer_hash) ans of
                 Inl e \<Rightarrow> internal_error e s1
               | Inr ok \<Rightarrow> ((200, Correct ok), s1)) \<and>
     db s1 = db s \<and>
     db (snd (post_stops_answer scrypt uuid_in now s
         \<lparr>runId = Some run, stopId = Some stop, answer = ans\<rparr>)) = db s \<and>
     fst (fst (post_stops_answer scrypt uuid_in now s
         \<lparr>runId = Some run, stopId = Some stop, answer = ans\<rparr>)) \<noteq> 404"
proof -
  obtain limited s1 where rl: "rate_limit now run stop s = (limited, s1)"
    by (cases "rate_limit now run stop s")
  have d1: "db s1 = db s"
    using rl by (auto simp: rate_limit_def redis_incr_def redis_expire_def Let_def
        split: option.splits sum.splits if_splits prod.splits)
  obtain stop_id where sid: "uuid_in stop = Some stop_id"
    using assms(3) by (auto simp: query_answer_hash_def split: option.splits)
  have up: "query_upsert_solved uuid_in (db s1) stop run now = Inr (db s1)"
    using assms(4,5) sid d1 by (simp add: query_upsert_solved_def upsert_solved_def)
  have ca: "check_answer scrypt uuid_in now run stop ans s1
      = (case verifyAnswer scrypt (Some answer_hash) ans of
                 Inl e \<Rightarrow> internal_error e s1
               | Inr ok \<Rightarrow> ((200, Correct ok), s1))"
    using assms(3) d1 up by (simp add: check_answer_def split: sum.splits)
  have post: "post_stops_answer scrypt uuid_in now s
         \<lparr>runId = Some run, stopId = Some stop, answer = ans\<rparr>
       = (if limited then ((429, Error ''Te veel pogingen''), s1)
          else case verifyAnswer scrypt (Some answer_hash) ans of
                 Inl e \<Rightarrow> internal_error e s1
               | Inr ok \<Rightarrow> ((200, Correct ok), s1))"
    using assms(1,2) rl ca by (simp add: post_stops_answer_ids)
  have "db (snd (post_stops_answer scrypt uuid_in now s
         \<lparr>runId = Some run, stopId = Some stop, answer = ans\<rparr>)) = db s"
    unfolding post using d1 by (simp add: internal_error_def split: sum.splits)
  moreover have "fst (fst (post_stops_answer scrypt uuid_in now s
         \<lparr>runId = Some run, stopId = Some stop, answer = ans\<rparr>)) \<noteq> 404"
    unfolding post by (simp add: internal_error_def split: sum.splits)
  ultimately show ?thesis using rl post d1 by blast
qed

theorem unknown_run_not_signalled_witness:
  "''run-9'' \<noteq> [] \<and> ''stop-waag'' \<noteq> [] \<and>
   query_answer_hash example_uuid_in (db (example_server None)) ''stop-waag''
     = Inr (Some ''plain:de waag'') \<and>
   example_uuid_in ''run-9'' = Some 9 \<and>
   runs (db (example_server None)) 9 = None \<and>
   db (snd (post_stops_answer example_scrypt example_uuid_in 100 (example_server None)
       \<lparr>runId = Some ''run-9'', stopId = Some ''stop-waag'', answer = Some ''De Waag''\<rparr>))
     = db (example_server None) \<and>
   fst (fst (post_stops_answer example_scrypt example_uuid_in 100 (example_server None)
       \<lparr>runId = Some ''run-9'', stopId = Some ''stop-waag'', answer = Some ''De Waag''\<rparr>))
     \<noteq> 404"
proof -
  have h1: "''run-9'' \<noteq> []" and h2: "''stop-waag'' \<noteq> []" by simp_all
  have h3: "query_answer_hash example_uuid_in (db (example_server None)) ''stop-waag''
     = Inr (Some ''plain:de waag'')"
    by (simp add: query_answer_hash_def example_uuid_in_def example_server_def example_db_def)
  have h4: "example_uuid_in ''run-9'' = Some 9" by (simp add: example_uuid_in_def)
  have h5: "runs (db (example_server None)) 9 = None"
    by (simp add: example_server_def example_db_def)
  from unknown_run_not_signalled [OF h1 h2 h3 h4 h5, of 100 example_scrypt "Some ''De Waag''"]
  show ?thesis using h3 h4 h5 by auto
qed

end
